theory Spec2Isabelle
  imports Main "HOL-Library.AList" "HOL-Library.Multiset" "HOL-Library.Sublist"
begin

section \<open>Text and characters\<close>

text \<open>
  The schema module (\<^verbatim>\<open>schema.py\<close>) works on Python \<^verbatim>\<open>str\<close> values with the \<^verbatim>\<open>re\<close>
  module. A text is modelled as a \<^typ>\<open>string\<close>; a \<^typ>\<open>char\<close> stands for the code
  point with the same number (0 to 255). The character classes below are the ones
  Python's \<^verbatim>\<open>str.isspace\<close>, \<^verbatim>\<open>\s\<close> and \<^verbatim>\<open>\w\<close> have on these code points. Every
  \<^verbatim>\<open>raise\<close> of the source is a value \<open>Inl e\<close> of the model.
\<close>

datatype py_error =
    ValueError string
  | TypeError
  | AttributeError
  | KeyError
  | RuntimeError
  | HTTPError "nat option"

definition is_space :: "char \<Rightarrow> bool" where
  "is_space c = (let n = (of_char c :: nat) in
     (9 \<le> n \<and> n \<le> 13) \<or> (28 \<le> n \<and> n \<le> 32) \<or> n = 133 \<or> n = 160)"

definition lstrip :: "string \<Rightarrow> string" where
  "lstrip s = dropWhile is_space s"

definition rstrip :: "string \<Rightarrow> string" where
  "rstrip s = rev (dropWhile is_space (rev s))"

definition strip :: "string \<Rightarrow> string" where
  "strip s = rstrip (lstrip s)"

definition lower_ascii :: "char \<Rightarrow> char" where
  "lower_ascii c = (let n = (of_char c :: nat) in
     if 65 \<le> n \<and> n \<le> 90 then char_of (n + 32) else c)"

fun starts_with :: "string \<Rightarrow> string \<Rightarrow> bool" where
  "starts_with [] s = True"
| "starts_with (p # ps) [] = False"
| "starts_with (p # ps) (c # cs) = (p = c \<and> starts_with ps cs)"

fun starts_with_ci :: "string \<Rightarrow> string \<Rightarrow> bool" where
  "starts_with_ci [] s = True"
| "starts_with_ci (p # ps) [] = False"
| "starts_with_ci (p # ps) (c # cs) = (lower_ascii p = lower_ascii c \<and> starts_with_ci ps cs)"

definition ends_with :: "string \<Rightarrow> string \<Rightarrow> bool" where
  "ends_with p s = starts_with (rev p) (rev s)"

definition sub_fence_open :: "string \<Rightarrow> string" where
  "sub_fence_open s =
     (if starts_with_ci ''```json'' s then dropWhile is_space (drop 7 s) else s)"

definition sub_fence_close :: "string \<Rightarrow> string" where
  "sub_fence_close s =
     (if ends_with ''```'' s then rstrip (take (length s - 3) s)
      else if ends_with ''```\<newline>'' s then rstrip (take (length s - 4) s) @ ''\<newline>''
      else s)"

fun scan_braces :: "int \<Rightarrow> string \<Rightarrow> string option" where
  "scan_braces brace_count [] = None"
| "scan_braces brace_count (c # cs) =
     (if c = CHR ''{'' then map_option ((#) c) (scan_braces (brace_count + 1) cs)
      else if c = CHR ''}'' then
        (if brace_count - 1 = 0 then Some [c]
         else map_option ((#) c) (scan_braces (brace_count - 1) cs))
      else map_option ((#) c) (scan_braces brace_count cs))"

definition clean_json_string :: "string \<Rightarrow> py_error + string" where
  "clean_json_string raw_str =
     (let cleaned = sub_fence_close (sub_fence_open (strip raw_str));
          from_brace = dropWhile (\<lambda>c. c \<noteq> CHR ''{'') cleaned
      in if from_brace = [] then Inl (ValueError ''No JSON object found in the string'')
         else case scan_braces 0 from_brace of
                None \<Rightarrow> Inl (ValueError ''No complete JSON object found in the string'')
              | Some obj \<Rightarrow> Inr obj)"



text \<open>
  The brace depth of a text, and a balanced object in the words of the specification:
  a text that opens with a brace and whose depth returns to zero at its last character
  and not before.
\<close>

fun brace_depth :: "string \<Rightarrow> int" where
  "brace_depth [] = 0"
| "brace_depth (c # cs) =
     (if c = CHR ''{'' then 1 else if c = CHR ''}'' then - 1 else 0) + brace_depth cs"

definition balanced_object :: "string \<Rightarrow> bool" where
  "balanced_object obj \<longleftrightarrow>
     obj \<noteq> [] \<and> hd obj = CHR ''{'' \<and> brace_depth obj = 0 \<and>
     list_all (\<lambda>k. 0 < brace_depth (take k obj)) [1..<length obj]"


text \<open>
  A text whose brace depth, counted from its first opening brace, never returns to zero
  (a text without an opening brace is one of them), and the braces of a text.
\<close>

definition never_closes :: "string \<Rightarrow> bool" where
  "never_closes s =
     (let from_brace = dropWhile (\<lambda>c. c \<noteq> CHR ''{'') s
      in list_all (\<lambda>k. brace_depth (take k from_brace) \<noteq> 0) [1..<Suc (length from_brace)])"

definition braces_of :: "string \<Rightarrow> string" where
  "braces_of s = filter (\<lambda>c. c = CHR ''{'' \<or> c = CHR ''}'') s"

text \<open>A reply object used in the examples, and a reply cut off before its end.\<close>

definition truncated_reply :: string where
  \<open>truncated_reply = ''```json\<newline>{"nodes":[{"id":"T","columns":[{"name":"a"}]}],"edges":[''\<close>


definition fenced_reply_object :: string where
  \<open>fenced_reply_object = ''{"nodes":[{"id":"T"}],"edges":[]}''\<close>

section \<open>Dependency graph and transitive closure\<close>










section \<open>The generation service and its retry wrapper\<close>

text \<open>
  What the generation service does at one request, as \<^verbatim>\<open>call_llm\<close> of \<^verbatim>\<open>llm.py\<close> sees it:
  \<^verbatim>\<open>requests.post\<close> raises a \<^verbatim>\<open>RequestException\<close>, or it returns a response with a status
  code and a body. The body is not JSON, or lacks a key or an index of
  \<^verbatim>\<open>data["choices"][0]["message"]["content"]\<close>, or has a value of the wrong type on that
  path, or carries the content text.
\<close>

datatype reply_body = NotJson | MissingField | WrongShape | Content string

datatype service_reply = ConnectionFailed | Reply nat reply_body

text \<open>
  \<^verbatim>\<open>call_llm\<close>: \<^verbatim>\<open>raise_for_status\<close> raises \<^verbatim>\<open>HTTPError\<close> on a status from 400 to 599, and
  \<^verbatim>\<open>HTTPError\<close> is a \<^verbatim>\<open>RequestException\<close>, so the first handler turns it, like every
  request failure, into a \<^verbatim>\<open>RuntimeError\<close>. The argument \<open>configured\<close> says that the three
  environment settings are present.
\<close>

definition call_llm :: "bool \<Rightarrow> service_reply \<Rightarrow> py_error + string" where
  "call_llm configured reply =
     (if \<not> configured then
        Inl (ValueError ''API_KEY, API_URL, and MODEL_NAME must be set in environment variables.'')
      else case reply of
        ConnectionFailed \<Rightarrow> Inl RuntimeError
      | Reply status body \<Rightarrow>
          if 400 \<le> status \<and> status < 600 then Inl RuntimeError
          else case body of
            NotJson \<Rightarrow> Inl RuntimeError
          | MissingField \<Rightarrow> Inl RuntimeError
          | WrongShape \<Rightarrow> Inl TypeError
          | Content text \<Rightarrow> Inr (strip text))"

text \<open>
  The loop of \<^verbatim>\<open>call_llm_single\<close>, over any callee: \<open>call k\<close> is the outcome of the
  call made when \<open>retries = k\<close> (a raised exception, \<^verbatim>\<open>None\<close>, or a text). The result
  comes with the list of the waits passed to \<^verbatim>\<open>time.sleep\<close>, in order. An exception raised
  inside the \<^verbatim>\<open>HTTPError\<close> handler (a missing \<^verbatim>\<open>e.response\<close>, a negative sleep length) leaves the
  function.
\<close>

function retry_loop ::
  "(nat \<Rightarrow> py_error + string option) \<Rightarrow> int \<Rightarrow> int \<Rightarrow> nat \<Rightarrow> int list
     \<Rightarrow> (py_error + string) \<times> int list" where
  "retry_loop call max_retries base_delay retries sleeps =
     (if int retries < max_retries then
        (case call retries of
           Inr None \<Rightarrow> (Inr [], sleeps)
         | Inr (Some result) \<Rightarrow> (Inr (strip result), sleeps)
         | Inl (HTTPError None) \<Rightarrow> (Inl AttributeError, sleeps)
         | Inl (HTTPError (Some status_code)) \<Rightarrow>
             if status_code = 429 then
               (let wait_time = base_delay * 2 ^ retries in
                if wait_time < 0 then (Inl (ValueError ''sleep length must be non-negative''), sleeps)
                else retry_loop call max_retries base_delay (retries + 1) (sleeps @ [wait_time]))
             else (Inr [], sleeps)
         | Inl _ \<Rightarrow> (Inr [], sleeps))
      else (Inr [], sleeps))"
  by pat_completeness auto
termination
  by (relation "measure (\<lambda>(call, max_retries, base_delay, retries, sleeps). nat (max_retries - int retries))")
     auto

declare retry_loop.simps [simp del]

text \<open>
  \<^verbatim>\<open>call_llm_single\<close> runs the loop over \<^verbatim>\<open>call_llm\<close>; \<open>service k\<close> is the reply of the
  generation service to the request number \<open>k\<close>.
\<close>

definition call_llm_single ::
  "bool \<Rightarrow> (nat \<Rightarrow> service_reply) \<Rightarrow> int \<Rightarrow> int \<Rightarrow> (py_error + string) \<times> int list" where
  "call_llm_single configured service max_retries base_delay =
     retry_loop (\<lambda>k. map_sum id Some (call_llm configured (service k))) max_retries base_delay 0 []"

text \<open>A service that is rate limited once and answers the next request.\<close>

definition limited_once :: "nat \<Rightarrow> service_reply" where
  "limited_once k = (if k = 0 then Reply 429 NotJson else Reply 200 (Content ''ALTER TABLE t ADD c INT''))"

section \<open>Decoded objects\<close>

text \<open>
  The values \<^verbatim>\<open>json.loads\<close> returns. A Python \<^verbatim>\<open>dict\<close> keeps its keys in insertion order
  and is modelled as an association list: assigning to a present key keeps its place,
  a new key goes to the end. A decoded number is an integer here; numbers with a
  fraction or an exponent (Python floats) are outside the model.
\<close>

datatype json =
    JNull
  | JBool bool
  | JInt int
  | JStr string
  | JArr "json list"
  | JObj "(string \<times> json) list"

type_synonym pydict = "(string \<times> json) list"

definition has_key :: "pydict \<Rightarrow> string \<Rightarrow> bool" where
  "has_key d k = (map_of d k \<noteq> None)"

definition dict_get :: "pydict \<Rightarrow> string \<Rightarrow> json \<Rightarrow> json" where
  "dict_get d k dflt = (case map_of d k of None \<Rightarrow> dflt | Some v \<Rightarrow> v)"

definition setdefault :: "string \<Rightarrow> json \<Rightarrow> pydict \<Rightarrow> pydict" where
  "setdefault k v d = (if has_key d k then d else d @ [(k, v)])"

text \<open>Truth value of a decoded value, and Python's \<^verbatim>\<open>a or b\<close>.\<close>

fun truthy :: "json \<Rightarrow> bool" where
  "truthy JNull = False"
| "truthy (JBool b) = b"
| "truthy (JInt i) = (i \<noteq> 0)"
| "truthy (JStr s) = (s \<noteq> [])"
| "truthy (JArr xs) = (xs \<noteq> [])"
| "truthy (JObj d) = (d \<noteq> [])"

definition py_or :: "json \<Rightarrow> json \<Rightarrow> json" where
  "py_or a b = (if truthy a then a else b)"

text \<open>
  Iteration (\<^verbatim>\<open>for x in v\<close>, \<^verbatim>\<open>list.extend(v)\<close>): the elements of a list, the keys of a
  dictionary, the characters of a text; any other value raises \<^verbatim>\<open>TypeError\<close>.
\<close>

fun py_iter :: "json \<Rightarrow> py_error + json list" where
  "py_iter (JArr xs) = Inr xs"
| "py_iter (JObj d) = Inr (map (\<lambda>kv. JStr (fst kv)) d)"
| "py_iter (JStr s) = Inr (map (\<lambda>c. JStr [c]) s)"
| "py_iter v = Inl TypeError"

fun map_err :: "('a \<Rightarrow> py_error + 'b) \<Rightarrow> 'a list \<Rightarrow> py_error + 'b list" where
  "map_err f [] = Inr []"
| "map_err f (x # xs) =
     (case f x of
        Inl e \<Rightarrow> Inl e
      | Inr y \<Rightarrow> (case map_err f xs of Inl e \<Rightarrow> Inl e | Inr ys \<Rightarrow> Inr (y # ys)))"

fun is_substring :: "string \<Rightarrow> string \<Rightarrow> bool" where
  "is_substring p [] = (p = [])"
| "is_substring p (c # cs) = (starts_with p (c # cs) \<or> is_substring p cs)"

subsection \<open>\<^verbatim>\<open>normalize_erd_node\<close>\<close>

definition normalize_column :: "json \<Rightarrow> py_error + json" where
  "normalize_column col =
     (case col of
        JObj c \<Rightarrow> Inr (JObj
          [(''name'', dict_get c ''name'' JNull),
           (''type'', dict_get c ''type'' JNull),
           (''isPrimaryKey'',
              JBool (truthy (py_or (dict_get c ''isPrimaryKey'' JNull) (dict_get c ''primaryKey'' JNull)))),
           (''isForeignKey'',
              JBool (truthy (py_or (dict_get c ''isForeignKey'' JNull) (dict_get c ''foreignKey'' JNull)))),
           (''nullable'', dict_get c ''nullable'' (JBool False))])
      | _ \<Rightarrow> Inl AttributeError)"

definition node_columns_source :: "pydict \<Rightarrow> json" where
  "node_columns_source node =
     py_or (py_or (dict_get node ''columns'' JNull) (dict_get node ''data'' JNull)) (JArr [])"

definition normalize_erd_node :: "json \<Rightarrow> py_error + json" where
  "normalize_erd_node n =
     (case n of
        JObj node0 \<Rightarrow>
          (let node = AList.update ''type'' (JStr ''table'') node0 in
           case py_iter (node_columns_source node) of
             Inl e \<Rightarrow> Inl e
           | Inr columns \<Rightarrow>
               (case map_err normalize_column columns of
                  Inl e \<Rightarrow> Inl e
                | Inr normalized_columns \<Rightarrow>
                    Inr (JObj (AList.delete ''data''
                           (AList.update ''columns'' (JArr normalized_columns) node)))))
      | _ \<Rightarrow> Inl TypeError)"

subsection \<open>\<^verbatim>\<open>parse_erd_json\<close>\<close>

text \<open>
  \<^verbatim>\<open>re.search(r'\{.*\}', response, re.DOTALL)\<close>: from the first opening brace to the last
  closing brace after it.
\<close>

definition search_object :: "string \<Rightarrow> string option" where
  "search_object response =
     (let from_brace = dropWhile (\<lambda>c. c \<noteq> CHR ''{'') response
      in if CHR ''}'' \<in> set from_brace
         then Some (rev (dropWhile (\<lambda>c. c \<noteq> CHR ''}'') (rev from_brace)))
         else None)"

text \<open>\<^verbatim>\<open>s.replace('\\' + q, q)\<close> for a quote character \<open>q\<close>.\<close>

fun replace_escaped :: "char \<Rightarrow> string \<Rightarrow> string" where
  "replace_escaped q (a # b # cs) =
     (if a = CHR 0x5C \<and> b = q then q # replace_escaped q cs
      else a # replace_escaped q (b # cs))"
| "replace_escaped q cs = cs"

text \<open>Step 4, the loop that moves an \<^verbatim>\<open>edges\<close> entry of a node to the top level.\<close>

fun hoist_edges :: "json list \<Rightarrow> json list \<Rightarrow> json list \<Rightarrow> py_error + (json list \<times> json list)" where
  "hoist_edges [] corrected_nodes extracted_edges = Inr (corrected_nodes, extracted_edges)"
| "hoist_edges (node # rest) corrected_nodes extracted_edges =
     (case node of
        JObj d \<Rightarrow>
          (case map_of d ''edges'' of
             None \<Rightarrow> hoist_edges rest (corrected_nodes @ [node]) extracted_edges
           | Some es \<Rightarrow>
               (case py_iter es of
                  Inl e \<Rightarrow> Inl e
                | Inr items \<Rightarrow>
                    hoist_edges rest (corrected_nodes @ [JObj (AList.delete ''edges'' d)])
                      (extracted_edges @ items)))
      | JArr xs \<Rightarrow>
          if JStr ''edges'' \<in> set xs then Inl TypeError
          else hoist_edges rest (corrected_nodes @ [node]) extracted_edges
      | JStr s \<Rightarrow>
          if is_substring ''edges'' s then Inl TypeError
          else hoist_edges rest (corrected_nodes @ [node]) extracted_edges
      | _ \<Rightarrow> Inl TypeError)"

definition fix_edge_nesting :: "pydict \<Rightarrow> py_error + pydict" where
  "fix_edge_nesting parsed =
     (case dict_get parsed ''nodes'' JNull of
        JArr nodes \<Rightarrow>
          (case hoist_edges nodes [] [] of
             Inl e \<Rightarrow> Inl e
           | Inr (corrected_nodes, extracted_edges) \<Rightarrow>
               (let parsed1 = AList.update ''nodes'' (JArr corrected_nodes) parsed in
                case map_of parsed1 ''edges'' of
                  None \<Rightarrow> Inr (parsed1 @ [(''edges'', JArr extracted_edges)])
                | Some (JArr edges) \<Rightarrow>
                    Inr (AList.update ''edges'' (JArr (edges @ extracted_edges)) parsed1)
                | Some _ \<Rightarrow> Inl AttributeError))
      | _ \<Rightarrow> Inr parsed)"

text \<open>The final clean-up: defaults on every node and on every column.\<close>

definition default_column :: "json \<Rightarrow> py_error + json" where
  "default_column col =
     (case col of
        JObj c \<Rightarrow> Inr (JObj (setdefault ''isForeignKey'' (JBool False)
                         (setdefault ''isPrimaryKey'' (JBool False)
                         (setdefault ''nullable'' (JBool False) c))))
      | _ \<Rightarrow> Inl AttributeError)"

definition default_columns :: "json \<Rightarrow> py_error + json" where
  "default_columns columns =
     (case columns of
        JArr cols \<Rightarrow> (case map_err default_column cols of Inl e \<Rightarrow> Inl e | Inr cols' \<Rightarrow> Inr (JArr cols'))
      | JObj d \<Rightarrow> if d = [] then Inr columns else Inl AttributeError
      | JStr s \<Rightarrow> if s = [] then Inr columns else Inl AttributeError
      | _ \<Rightarrow> Inl TypeError)"

definition default_node :: "json \<Rightarrow> py_error + json" where
  "default_node n =
     (case n of
        JObj node0 \<Rightarrow>
          (let node = setdefault ''type'' (JStr ''table'') node0 in
           case map_of node ''columns'' of
             None \<Rightarrow> Inr (JObj node)
           | Some columns \<Rightarrow>
               (case default_columns columns of
                  Inl e \<Rightarrow> Inl e
                | Inr columns' \<Rightarrow> Inr (JObj (AList.update ''columns'' columns' node))))
      | _ \<Rightarrow> Inl AttributeError)"

definition default_nodes :: "json \<Rightarrow> py_error + json" where
  "default_nodes nodes =
     (case nodes of
        JArr ns \<Rightarrow> (case map_err default_node ns of Inl e \<Rightarrow> Inl e | Inr ns' \<Rightarrow> Inr (JArr ns'))
      | JObj d \<Rightarrow> if d = [] then Inr nodes else Inl AttributeError
      | JStr s \<Rightarrow> if s = [] then Inr nodes else Inl AttributeError
      | _ \<Rightarrow> Inl TypeError)"

text \<open>
  Steps 4 and 5 and the clean-up, on the decoded value. A value that is not a dictionary
  has no \<^verbatim>\<open>get\<close>.
\<close>

definition repair_erd :: "json \<Rightarrow> py_error + json" where
  "repair_erd decoded =
     (case decoded of
        JObj parsed0 \<Rightarrow>
          (case fix_edge_nesting parsed0 of
             Inl e \<Rightarrow> Inl e
           | Inr parsed \<Rightarrow>
               if \<not> has_key parsed ''nodes'' \<or> \<not> has_key parsed ''edges'' then
                 Inl (ValueError ''Parsed JSON missing required keys: 'nodes' or 'edges'.'')
               else
                 (case default_nodes (dict_get parsed ''nodes'' JNull) of
                    Inl e \<Rightarrow> Inl e
                  | Inr nodes \<Rightarrow> Inr (JObj (AList.update ''nodes'' nodes parsed))))
      | _ \<Rightarrow> Inl AttributeError)"

text \<open>
  The body of the \<^verbatim>\<open>try\<close> block. \<open>loads\<close> is \<^verbatim>\<open>json.loads\<close> of the standard library:
  \<open>None\<close> when it raises its decoding error (a \<^verbatim>\<open>ValueError\<close>).
\<close>

definition json_text :: "string \<Rightarrow> string" where
  "json_text matched = strip (replace_escaped (CHR 0x22) (replace_escaped (CHR 0x27) matched))"

definition parse_erd_json_try :: "(string \<Rightarrow> json option) \<Rightarrow> string \<Rightarrow> py_error + json" where
  "parse_erd_json_try loads response =
     (case search_object response of
        None \<Rightarrow> Inl (ValueError ''No valid JSON object found in response.'')
      | Some matched \<Rightarrow>
          (case loads (json_text matched) of
             None \<Rightarrow> Inl (ValueError ''JSONDecodeError'')
           | Some decoded \<Rightarrow> repair_erd decoded))"

text \<open>\<^verbatim>\<open>except Exception\<close> turns every exception into the result \<^verbatim>\<open>None\<close>.\<close>

definition parse_erd_json :: "(string \<Rightarrow> json option) \<Rightarrow> string \<Rightarrow> json option" where
  "parse_erd_json loads response =
     (case parse_erd_json_try loads response of Inl e \<Rightarrow> None | Inr parsed \<Rightarrow> Some parsed)"

subsection \<open>Column names, and example replies\<close>

text \<open>
  The name of a column entry (\<^verbatim>\<open>col.get("name")\<close>), the names in the \<^verbatim>\<open>columns\<close> list of a
  normalized node, and the names of the column entries of a decoded node, read from
  \<^verbatim>\<open>columns\<close>, or from \<^verbatim>\<open>data\<close> when \<^verbatim>\<open>columns\<close> is absent or empty.
\<close>

definition entry_name :: "json \<Rightarrow> json" where
  "entry_name col = (case col of JObj c \<Rightarrow> dict_get c ''name'' JNull | _ \<Rightarrow> JNull)"

definition node_column_names :: "json \<Rightarrow> json list" where
  "node_column_names n =
     (case n of
        JObj d \<Rightarrow> (case dict_get d ''columns'' JNull of JArr cols \<Rightarrow> map entry_name cols | _ \<Rightarrow> [])
      | _ \<Rightarrow> [])"

definition iter_names :: "json \<Rightarrow> json list" where
  "iter_names columns = (case py_iter columns of Inl e \<Rightarrow> [] | Inr cols \<Rightarrow> map entry_name cols)"

definition decoded_column_names :: "json \<Rightarrow> json list" where
  "decoded_column_names n = (case n of JObj d \<Rightarrow> iter_names (node_columns_source d) | _ \<Rightarrow> [])"

definition decoded_nodes :: "json \<Rightarrow> json list" where
  "decoded_nodes decoded =
     (case decoded of
        JObj d \<Rightarrow> (case py_iter (dict_get d ''nodes'' (JArr [])) of Inl e \<Rightarrow> [] | Inr ns \<Rightarrow> ns)
      | _ \<Rightarrow> [])"

text \<open>
  Three reply texts and the values \<^verbatim>\<open>json.loads\<close> gives for them; \<open>example_loads\<close> is the
  decoder on these texts and fails on every other text.
\<close>

definition fenced_reply_value :: json where
  "fenced_reply_value =
     JObj [(''nodes'', JArr [JObj [(''id'', JStr ''T'')]]), (''edges'', JArr [])]"

definition twin_columns_text :: string where
  \<open>twin_columns_text =
     ''{"nodes":[{"id":"T","columns":[{"name":"a","type":"int"},{"name":"a","type":"text"}]}],"edges":[]}''\<close>

definition twin_columns_value :: json where
  "twin_columns_value =
     JObj [(''nodes'', JArr [JObj [(''id'', JStr ''T''),
              (''columns'', JArr [JObj [(''name'', JStr ''a''), (''type'', JStr ''int'')],
                                  JObj [(''name'', JStr ''a''), (''type'', JStr ''text'')]])]]),
           (''edges'', JArr [])]"

definition edges_only_text :: string where
  \<open>edges_only_text = ''{"edges":[]}''\<close>

definition example_loads :: "string \<Rightarrow> json option" where
  "example_loads = map_of
     [(fenced_reply_object, fenced_reply_value),
      (twin_columns_text, twin_columns_value),
      (edges_only_text, JObj [(''edges'', JArr [])])]"

section \<open>The chunk loop and the final merge\<close>

text \<open>
  The body of the \<^verbatim>\<open>try\<close> block of the chunk loop up to the two \<^verbatim>\<open>extend\<close> calls: the
  nodes of the chunk, normalized, and the value of its \<^verbatim>\<open>edges\<close> entry.
\<close>

definition chunk_result :: "(string \<Rightarrow> json option) \<Rightarrow> string \<Rightarrow> py_error + (json list \<times> json)" where
  "chunk_result loads raw_erd =
     (case clean_json_string raw_erd of
        Inl e \<Rightarrow> Inl e
      | Inr cleaned \<Rightarrow>
          (case parse_erd_json loads cleaned of
             Some (JObj parsed) \<Rightarrow>
               (case py_iter (dict_get parsed ''nodes'' (JArr [])) of
                  Inl e \<Rightarrow> Inl e
                | Inr ns \<Rightarrow>
                    (case map_err normalize_erd_node ns of
                       Inl e \<Rightarrow> Inl e
                     | Inr nodes \<Rightarrow> Inr (nodes, dict_get parsed ''edges'' (JArr []))))
           | _ \<Rightarrow> Inl AttributeError))"

text \<open>The value the decoder returned for a reply, when the recovery got that far.\<close>

definition decoded_reply :: "(string \<Rightarrow> json option) \<Rightarrow> string \<Rightarrow> json option" where
  "decoded_reply loads raw_erd =
     (case clean_json_string raw_erd of
        Inl e \<Rightarrow> None
      | Inr cleaned \<Rightarrow>
          (case search_object cleaned of None \<Rightarrow> None | Some matched \<Rightarrow> loads (json_text matched)))"

text \<open>The node that the reply \<open>twin_columns_text\<close> yields.\<close>

definition twin_columns_node :: json where
  "twin_columns_node =
     JObj [(''id'', JStr ''T''),
           (''columns'', JArr
              [JObj [(''name'', JStr ''a''), (''type'', JStr ''int''), (''isPrimaryKey'', JBool False),
                     (''isForeignKey'', JBool False), (''nullable'', JBool False)],
               JObj [(''name'', JStr ''a''), (''type'', JStr ''text''), (''isPrimaryKey'', JBool False),
                     (''isForeignKey'', JBool False), (''nullable'', JBool False)]]),
           (''type'', JStr ''table'')]"

text \<open>
  One round of the loop on the reply \<open>raw_erd\<close> of the generation service: an empty reply
  is skipped; an exception is caught and the loop goes on. \<^verbatim>\<open>all_nodes.extend(nodes)\<close> runs
  before \<^verbatim>\<open>all_edges.extend(edges)\<close>, which raises when \<open>edges\<close> cannot be iterated.
\<close>

definition chunk_step ::
  "(string \<Rightarrow> json option) \<Rightarrow> string \<Rightarrow> json list \<times> json list \<Rightarrow> json list \<times> json list" where
  "chunk_step loads raw_erd acc =
     (if raw_erd = [] then acc
      else case chunk_result loads raw_erd of
        Inl e \<Rightarrow> acc
      | Inr (nodes, edges) \<Rightarrow>
          (case py_iter edges of
             Inl e \<Rightarrow> (fst acc @ nodes, snd acc)
           | Inr es \<Rightarrow> (fst acc @ nodes, snd acc @ es)))"

fun chunk_loop ::
  "(string \<Rightarrow> json option) \<Rightarrow> string list \<Rightarrow> json list \<times> json list \<Rightarrow> json list \<times> json list" where
  "chunk_loop loads [] acc = acc"
| "chunk_loop loads (raw_erd # rest) acc = chunk_loop loads rest (chunk_step loads raw_erd acc)"




























section \<open>DDL synthesis and its parsing\<close>

text \<open>
  A catalog row is a Python dictionary read with \<^verbatim>\<open>row.get\<close>. A field is \<open>None\<close> when the
  key is absent (for \<open>table_name\<close> and the reference fields also when the value is \<^verbatim>\<open>None\<close>,
  which the code treats alike). The catalog query returns the column name, the data type
  and the maximal length as values that are never \<^verbatim>\<open>None\<close>.
\<close>

record catalog_row =
  table_name :: "string option"
  column_name :: "string option"
  data_type :: "string option"
  max_length :: "int option"
  is_nullable :: "bool option"
  is_primary_key :: "bool option"
  is_foreign_key :: "bool option"
  ReferenceTable :: "string option"
  referenced_table :: "string option"
  ReferenceColumn :: "string option"
  referenced_column :: "string option"

definition get_or :: "'a option \<Rightarrow> 'a \<Rightarrow> 'a" where
  "get_or field dflt = (case field of None \<Rightarrow> dflt | Some v \<Rightarrow> v)"

text \<open>
  \<^verbatim>\<open>str.upper\<close> on the letters \<open>a\<close> to \<open>z\<close>. No other character of a text becomes one of
  the letters of \<^verbatim>\<open>VARCHAR\<close> or \<^verbatim>\<open>NVARCHAR\<close> in upper case, so the membership test below reads
  the same.
\<close>

definition upper_ascii :: "char \<Rightarrow> char" where
  "upper_ascii c = (let n = (of_char c :: nat) in
     if 97 \<le> n \<and> n \<le> 122 then char_of (n - 32) else c)"

text \<open>The decimal digits of a natural number, as an f-string prints it.\<close>

definition digit_char :: "nat \<Rightarrow> char" where
  "digit_char d = char_of (48 + d)"

function str_nat :: "nat \<Rightarrow> string" where
  "str_nat n = (if n < 10 then [digit_char n] else str_nat (n div 10) @ [digit_char (n mod 10)])"
  by pat_completeness auto
termination
  by (relation "measure id") auto

declare str_nat.simps [simp del]

text \<open>The text added for one row: the length qualifier, and the whole column line.\<close>

definition length_qualifier :: "catalog_row \<Rightarrow> string" where
  "length_qualifier row =
     (let data_type = get_or (data_type row) ''VARCHAR'';
          max_length = abs (get_or (max_length row) 0)
      in if map upper_ascii data_type \<in> set [''VARCHAR'', ''NVARCHAR'']
         then ''('' @ str_nat (nat (if max_length > 0 then max_length else 255)) @ '')''
         else [])"

definition reference_clause :: "catalog_row \<Rightarrow> string" where
  "reference_clause row =
     (if get_or (is_foreign_key row) False then
        (let ref_table = (if get_or (ReferenceTable row) [] \<noteq> [] then get_or (ReferenceTable row) []
                          else get_or (referenced_table row) []);
             ref_col = (if get_or (ReferenceColumn row) [] \<noteq> [] then get_or (ReferenceColumn row) []
                        else get_or (referenced_column row) [])
         in if ref_table \<noteq> [] \<and> ref_col \<noteq> []
            then '' FOREIGN KEY REFERENCES '' @ ref_table @ ''('' @ ref_col @ '')''
            else [])
      else [])"

definition column_line :: "catalog_row \<Rightarrow> string" where
  "column_line row =
     ''  ['' @ get_or (column_name row) ''UnknownColumn'' @ ''] '' @ get_or (data_type row) ''VARCHAR''
       @ length_qualifier row
       @ (if \<not> get_or (is_nullable row) True then '' NOT NULL'' else '' NULL'')
       @ (if get_or (is_primary_key row) False then '' PRIMARY KEY'' else [])
       @ reference_clause row
       @ '',\<newline>''"

text \<open>\<^verbatim>\<open>schema_text.rstrip(",\n")\<close>.\<close>

definition rstrip_sep :: "string \<Rightarrow> string" where
  "rstrip_sep s = rev (dropWhile (\<lambda>c. c = CHR '','' \<or> c = CHR 0x0A) (rev s))"

text \<open>
  One round of the loop over the rows, on the pair of \<^verbatim>\<open>schema_text\<close> and
  \<^verbatim>\<open>current_table\<close>; a row without a table name is skipped.
\<close>

definition synth_step :: "catalog_row \<Rightarrow> string \<times> string option \<Rightarrow> string \<times> string option" where
  "synth_step row st =
     (case table_name row of
        None \<Rightarrow> st
      | Some name \<Rightarrow>
          (let (schema_text, current_table) = st;
               opened =
                 (if Some name \<noteq> current_table then
                    (case current_table of
                       None \<Rightarrow> schema_text
                     | Some previous \<Rightarrow> rstrip_sep schema_text @ ''\<newline>);\<newline>\<newline>'')
                    @ ''CREATE TABLE ['' @ name @ ''] (\<newline>''
                  else schema_text)
           in (opened @ column_line row, Some name)))"

fun synth_loop :: "catalog_row list \<Rightarrow> string \<times> string option \<Rightarrow> string \<times> string option" where
  "synth_loop [] st = st"
| "synth_loop (row # rows) st = synth_loop rows (synth_step row st)"

definition close_last :: "string \<times> string option \<Rightarrow> string" where
  "close_last st =
     (case snd st of None \<Rightarrow> fst st | Some current_table \<Rightarrow> rstrip_sep (fst st) @ ''\<newline>);'')"

subsection \<open>\<^verbatim>\<open>fix_sql_schema\<close>\<close>

text \<open>
  Each of its four patterns is a literal text, any white space, and one closing character.
  \<open>match_gap\<close> matches such a pattern at the start of a text and returns the rest;
  \<open>sub_gap\<close> is \<^verbatim>\<open>re.sub\<close>: it replaces the matches from left to right.
\<close>

definition match_gap :: "bool \<Rightarrow> string \<Rightarrow> char \<Rightarrow> string \<Rightarrow> string option" where
  "match_gap ignorecase pre post s =
     (if (if ignorecase then starts_with_ci pre s else starts_with pre s) then
        (case dropWhile is_space (drop (length pre) s) of
           [] \<Rightarrow> None
         | c # rest \<Rightarrow> if c = post then Some rest else None)
      else None)"

function sub_gap :: "bool \<Rightarrow> string \<Rightarrow> char \<Rightarrow> string \<Rightarrow> string \<Rightarrow> string" where
  "sub_gap ignorecase pre post repl [] = []"
| "sub_gap ignorecase pre post repl (c # cs) =
     (case match_gap ignorecase pre post (c # cs) of
        Some rest \<Rightarrow> repl @ sub_gap ignorecase pre post repl rest
      | None \<Rightarrow> c # sub_gap ignorecase pre post repl cs)"
  by pat_completeness auto
termination
proof (relation "measure (\<lambda>(ignorecase, pre, post, repl, s). length s)")
  fix ignorecase :: bool and pre :: string and post :: char and repl :: string and c cs rest
  assume "match_gap ignorecase pre post (c # cs) = Some rest"
  then have "dropWhile is_space (drop (length pre) (c # cs)) = post # rest"
    by (auto simp: match_gap_def split: if_splits list.splits)
  then have "length (post # rest) \<le> length (drop (length pre) (c # cs))"
    by (metis length_dropWhile_le)
  then have "length rest < length (c # cs)" by simp
  then show "((ignorecase, pre, post, repl, rest), (ignorecase, pre, post, repl, c # cs))
      \<in> measure (\<lambda>(ignorecase, pre, post, repl, s). length s)" by simp
qed simp_all

declare sub_gap.simps [simp del]

definition fix_sql_schema :: "string \<Rightarrow> string" where
  "fix_sql_schema sql_text =
     sub_gap False '','' (CHR '';'') '';''
       (sub_gap False '','' (CHR '')'') '')''
         (sub_gap True ''VARCHAR('' (CHR '')'') ''VARCHAR(255)''
           (sub_gap True ''NVARCHAR('' (CHR '')'') ''NVARCHAR(255)'' sql_text)))"

text \<open>The DDL text that \<^verbatim>\<open>suggest_schema_improvements\<close> builds from the catalog rows.\<close>

definition synthesize_ddl :: "catalog_row list \<Rightarrow> string" where
  "synthesize_ddl schema_data = fix_sql_schema (close_last (synth_loop schema_data ([], None)))"

subsection \<open>\<^verbatim>\<open>split_schema_to_tables\<close> and \<^verbatim>\<open>extract_table_name\<close>\<close>

definition is_word :: "char \<Rightarrow> bool" where
  "is_word c = (let n = (of_char c :: nat) in
     (48 \<le> n \<and> n \<le> 57) \<or> (65 \<le> n \<and> n \<le> 90) \<or> n = 95 \<or> (97 \<le> n \<and> n \<le> 122) \<or>
     n = 170 \<or> n = 178 \<or> n = 179 \<or> n = 181 \<or> n = 185 \<or> n = 186 \<or> (188 \<le> n \<and> n \<le> 190) \<or>
     (192 \<le> n \<and> n \<le> 214) \<or> (216 \<le> n \<and> n \<le> 246) \<or> (248 \<le> n \<and> n \<le> 255))"

text \<open>
  \<^verbatim>\<open>CREATE TABLE\s+\[?(\w+)\]?\<close> at the start of a text, without regard to case: the name
  matched by the group and the rest of the text. The repetitions are greedy, and giving
  back a character never makes the rest of either pattern match.
\<close>

definition optional_char :: "char \<Rightarrow> string \<Rightarrow> string" where
  "optional_char c s = (case s of [] \<Rightarrow> s | d # t \<Rightarrow> if d = c then t else s)"

definition table_head :: "string \<Rightarrow> (string \<times> string) option" where
  "table_head s =
     (if starts_with_ci ''CREATE TABLE'' s then
        (let after_keyword = drop 12 s;
             after_space = dropWhile is_space after_keyword;
             after_bracket = optional_char (CHR ''['') after_space;
             name = takeWhile is_word after_bracket
         in if length after_space = length after_keyword \<or> name = [] then None
            else Some (name, optional_char (CHR '']'') (dropWhile is_word after_bracket)))
      else None)"

text \<open>The shortest \<^verbatim>\<open>.*?\);\<close>: the text up to the first \<^verbatim>\<open>);\<close> and the text after it.\<close>

fun find_close :: "string \<Rightarrow> (string \<times> string) option" where
  "find_close (a # b # cs) =
     (if a = CHR '')'' \<and> b = CHR '';'' then Some ([a, b], cs)
      else map_option (\<lambda>(before, rest). (a # before, rest)) (find_close (b # cs)))"
| "find_close cs = None"

definition match_table :: "string \<Rightarrow> (string \<times> string) option" where
  "match_table s =
     (case table_head s of
        None \<Rightarrow> None
      | Some (name, after_head) \<Rightarrow>
          (case find_close after_head of
             None \<Rightarrow> None
           | Some (before, rest) \<Rightarrow> Some (take (length s - length rest) s, rest)))"

function split_schema_to_tables :: "string \<Rightarrow> string list" where
  "split_schema_to_tables [] = []"
| "split_schema_to_tables (c # cs) =
     (case match_table (c # cs) of
        Some (block, rest) \<Rightarrow> block # split_schema_to_tables rest
      | None \<Rightarrow> split_schema_to_tables cs)"
  by pat_completeness auto
termination
proof (relation "measure length")
  fix c :: char and cs x2 block rest
  assume m: "match_table (c # cs) = Some x2" and x: "(block, rest) = x2"
  have fc: "find_close t = Some (u, r) \<Longrightarrow> length r < length t" for t u r
    by (induction t arbitrary: u rule: find_close.induct) (auto split: if_splits)
  from m x obtain name after_head before where
    h: "table_head (c # cs) = Some (name, after_head)" and
    f: "find_close after_head = Some (before, rest)"
    by (auto simp: match_table_def split: option.splits prod.splits)
  have oc: "length (optional_char d t) \<le> length t" for d t
    by (simp add: optional_char_def split: list.splits)
  have th: "table_head s = Some (n, a) \<Longrightarrow> length a \<le> length s" for s n a
  proof -
    assume t: "table_head s = Some (n, a)"
    let ?sp = "dropWhile is_space (drop 12 s)"
    let ?b = "optional_char (CHR ''['') ?sp"
    let ?n = "dropWhile is_word ?b"
    from t have a: "a = optional_char (CHR '']'') ?n"
      by (simp add: table_head_def Let_def split: if_splits)
    have "length a \<le> length ?n" unfolding a by (rule oc)
    also have "\<dots> \<le> length ?b" by (rule length_dropWhile_le)
    also have "\<dots> \<le> length ?sp" by (rule oc)
    also have "\<dots> \<le> length (drop 12 s)" by (rule length_dropWhile_le)
    also have "\<dots> \<le> length s" by simp
    finally show ?thesis .
  qed
  from th[OF h] have "length after_head \<le> length (c # cs)" .
  with fc[OF f] show "(rest, c # cs) \<in> measure length" by simp
qed simp_all

declare split_schema_to_tables.simps [simp del]

definition extract_table_name :: "string \<Rightarrow> string" where
  "extract_table_name table_sql =
     (case table_head table_sql of None \<Rightarrow> ''Unknown'' | Some (name, rest) \<Rightarrow> name)"

text \<open>
  The table names that the dependency graph builder recovers from a text, and the table
  names that the rows carry.
\<close>

definition recovered_names :: "string \<Rightarrow> string list" where
  "recovered_names schema_text = map extract_table_name (split_schema_to_tables schema_text)"

definition row_table_names :: "catalog_row list \<Rightarrow> string list" where
  "row_table_names schema_data = concat (map (\<lambda>row. case table_name row of None \<Rightarrow> [] | Some n \<Rightarrow> [n]) schema_data)"

definition is_identifier :: "string \<Rightarrow> bool" where
  "is_identifier name \<longleftrightarrow> name \<noteq> [] \<and> list_all is_word name"

text \<open>Example rows.\<close>

definition blank_row :: catalog_row where
  "blank_row = \<lparr> table_name = None, column_name = None, data_type = None, max_length = None,
     is_nullable = None, is_primary_key = None, is_foreign_key = None, ReferenceTable = None,
     referenced_table = None, ReferenceColumn = None, referenced_column = None \<rparr>"

definition employees_rows :: "catalog_row list" where
  "employees_rows =
     [blank_row \<lparr> table_name := Some ''Departments'', column_name := Some ''DeptID'',
          data_type := Some ''int'', max_length := Some 4, is_nullable := Some False,
          is_primary_key := Some True \<rparr>,
      blank_row \<lparr> table_name := Some ''Employees'', column_name := Some ''EID'',
          data_type := Some ''int'', max_length := Some 4, is_nullable := Some False,
          is_primary_key := Some True \<rparr>,
      blank_row \<lparr> table_name := Some ''Employees'', column_name := Some ''Name'',
          data_type := Some ''nvarchar'', max_length := Some 0 \<rparr>,
      blank_row \<lparr> table_name := Some ''Employees'', column_name := Some ''DeptID'',
          data_type := Some ''int'', max_length := Some 4, is_nullable := Some False,
          is_foreign_key := Some True, referenced_table := Some ''Departments'',
          referenced_column := Some ''DeptID'' \<rparr>]"

definition order_details_rows :: "catalog_row list" where
  "order_details_rows =
     [blank_row \<lparr> table_name := Some ''Order Details'', column_name := Some ''OrderID'',
          data_type := Some ''int'', max_length := Some 4, is_nullable := Some False \<rparr>]"


text \<open>
  For the proofs: a character matches a pattern character (with or without regard to
  case); a character lies outside a pattern when no match can hold it.
\<close>

definition eq_char :: "bool \<Rightarrow> char \<Rightarrow> char \<Rightarrow> bool" where
  "eq_char ignorecase p c = (if ignorecase then lower_ascii p = lower_ascii c else p = c)"

definition outside :: "bool \<Rightarrow> string \<Rightarrow> char \<Rightarrow> char \<Rightarrow> bool" where
  "outside ignorecase pre post x \<longleftrightarrow>
     x \<noteq> post \<and> \<not> is_space x \<and> list_all (\<lambda>p. \<not> eq_char ignorecase p x) pre"

definition starts_pattern :: "bool \<Rightarrow> string \<Rightarrow> string \<Rightarrow> bool" where
  "starts_pattern ignorecase pre s = (if ignorecase then starts_with_ci pre s else starts_with pre s)"

text \<open>
  The head of a synthesized table block, and a text made of such heads, each followed by
  a text of its own.
\<close>

definition table_header :: "string \<Rightarrow> string" where
  "table_header name = ''CREATE TABLE ['' @ name @ '']''"

definition render :: "(string \<times> string) list \<Rightarrow> string" where
  "render segs = concat (map (\<lambda>(name, body). table_header name @ body) segs)"

text \<open>
  A text in which no table head can start, and a text that holds, from every position
  where a head starts, a closing \<^verbatim>\<open>);\<close> after it.
\<close>

definition no_head :: "string \<Rightarrow> bool" where
  "no_head y = list_all (\<lambda>c. lower_ascii c \<noteq> CHR ''c'') y"

definition closed_body :: "string \<Rightarrow> bool" where
  "closed_body z \<longleftrightarrow> (\<exists>z' y. z = z' @ '');'' @ y \<and> no_head y)"

definition closed_tail :: "string \<Rightarrow> bool" where
  "closed_tail z \<longleftrightarrow> no_head z \<or> closed_body z"

text \<open>
  The shape of the text under construction. A block that was closed ends with \<^verbatim>\<open>);\<close> and
  the separator after it; the block of the current table is still open.
\<close>

definition block_end :: "string \<Rightarrow> bool" where
  "block_end g \<longleftrightarrow>
     (\<exists>g0 y. g = g0 @ '');'' @ y \<and> CHR '')'' \<notin> set y \<and> CHR '';'' \<notin> set y \<and> no_head y)"

definition open_shape :: "string set \<Rightarrow> string \<times> string option \<Rightarrow> bool" where
  "open_shape names st \<longleftrightarrow>
     (snd st = None \<and> fst st = [] \<and> names = {}) \<or>
     (\<exists>segs n body. snd st = Some n \<and> fst st = render segs @ table_header n @ body \<and>
        names = insert n (fst ` set segs) \<and> list_all (\<lambda>seg. block_end (snd seg)) segs)"

section \<open>Properties of the fence and brace recovery\<close>


lemma not_space_braces: "\<not> is_space (CHR ''{'')" "\<not> is_space (CHR ''}'')"
  by (simp_all add: is_space_def)

lemma scan_braces_result:
  "scan_braces n t = Some r \<Longrightarrow>
     r \<noteq> [] \<and> last r = CHR ''}'' \<and> scan_braces n r = Some r \<and> (\<exists>post. t = r @ post)"
proof (induction t arbitrary: n r)
  case Nil
  then show ?case by simp
next
  case (Cons c cs)
  show ?case
  proof (cases "c = CHR ''}'' \<and> n - 1 = 0")
    case True
    with Cons.prems show ?thesis by auto
  next
    case False
    then obtain r' where r: "r = c # r'" and s: "scan_braces (if c = CHR ''{'' then n + 1 else if c = CHR ''}'' then n - 1 else n) cs = Some r'"
      using Cons.prems by (auto split: if_splits)
    from Cons.IH[OF s] have ih: "r' \<noteq> []" "last r' = CHR ''}''"
      "scan_braces (if c = CHR ''{'' then n + 1 else if c = CHR ''}'' then n - 1 else n) r' = Some r'"
      "\<exists>post. cs = r' @ post" by auto
    show ?thesis using False ih r by auto
  qed
qed

lemma starts_with_iff: "starts_with p s \<longleftrightarrow> (\<exists>r. s = p @ r)"
  by (induction p s rule: starts_with.induct) auto

lemma ends_with_iff: "ends_with p s \<longleftrightarrow> (\<exists>r. s = r @ p)"
proof
  assume "ends_with p s"
  then obtain r where "rev s = rev p @ r" by (auto simp: ends_with_def starts_with_iff)
  then have "s = rev r @ p" by (metis rev_append rev_rev_ident)
  then show "\<exists>r. s = r @ p" by blast
next
  assume "\<exists>r. s = r @ p"
  then show "ends_with p s" by (auto simp: ends_with_def starts_with_iff)
qed

lemma dropWhile_append_stop:
  "ys \<noteq> [] \<Longrightarrow> \<not> P (hd ys) \<Longrightarrow> dropWhile P (xs @ ys) = dropWhile P xs @ ys"
  by (induction xs) (auto simp: neq_Nil_conv)

lemma rstrip_append_stop:
  assumes "ys \<noteq> []" "\<not> is_space (last ys)"
  shows "rstrip (ys @ zs) = ys @ rstrip zs"
proof -
  have "dropWhile is_space (rev zs @ rev ys) = dropWhile is_space (rev zs) @ rev ys"
    using assms by (intro dropWhile_append_stop) (simp_all add: hd_rev)
  then show ?thesis by (simp add: rstrip_def)
qed

lemma starts_with_ci_length:
  "starts_with_ci p (pre @ c # rest) \<Longrightarrow> \<forall>x\<in>set p. lower_ascii x \<noteq> lower_ascii c \<Longrightarrow>
     length p \<le> length pre"
proof (induction p "pre @ c # rest" arbitrary: pre rule: starts_with_ci.induct)
  case (1 s)
  then show ?case by simp
next
  case (2 p ps)
  then show ?case by simp
next
  case (3 p ps d ds)
  then show ?case by (cases pre) auto
qed


lemma fence_open_no_brace:
  "\<forall>x\<in>set ''```json''. lower_ascii x \<noteq> lower_ascii (CHR ''{'')"
  by (simp add: lower_ascii_def)

lemma strip_keeps_object:
  assumes "obj \<noteq> []" "hd obj = CHR ''{''" "last obj = CHR ''}''"
  shows "strip (pre @ obj @ post) = lstrip pre @ obj @ rstrip post"
proof -
  have "lstrip (pre @ (obj @ post)) = lstrip pre @ (obj @ post)"
    unfolding lstrip_def using assms by (intro dropWhile_append_stop) (simp_all add: not_space_braces)
  moreover have "rstrip ((lstrip pre @ obj) @ post) = (lstrip pre @ obj) @ rstrip post"
    using assms by (intro rstrip_append_stop) (simp_all add: not_space_braces)
  ultimately show ?thesis by (simp add: strip_def)
qed

lemma sub_fence_open_keeps_object:
  assumes "obj \<noteq> []" "hd obj = CHR ''{''"
  shows "\<exists>pre'. sub_fence_open (pre @ obj @ post) = pre' @ obj @ post \<and> set pre' \<subseteq> set pre"
proof (cases "starts_with_ci ''```json'' (pre @ obj @ post)")
  case False
  then show ?thesis by (auto simp: sub_fence_open_def)
next
  case True
  from assms obtain cs where obj: "obj = CHR ''{'' # cs" by (cases obj) auto
  from True have "starts_with_ci ''```json'' (pre @ CHR ''{'' # (cs @ post))" by (simp add: obj)
  from starts_with_ci_length[OF this fence_open_no_brace] have len: "7 \<le> length pre" by simp
  then have "drop 7 (pre @ obj @ post) = drop 7 pre @ (obj @ post)" by simp
  moreover have "dropWhile is_space (drop 7 pre @ (obj @ post)) = dropWhile is_space (drop 7 pre) @ (obj @ post)"
    using assms by (intro dropWhile_append_stop) (simp_all add: not_space_braces)
  moreover have "set (dropWhile is_space (drop 7 pre)) \<subseteq> set pre"
    by (meson set_dropWhileD set_drop_subset subsetD subsetI)
  ultimately show ?thesis using True by (auto simp: sub_fence_open_def)
qed

lemma ends_with_fence_length:
  assumes "ends_with f (ys @ post)" "ys \<noteq> []" "last ys \<notin> set f"
  shows "length f \<le> length post"
proof (rule ccontr)
  assume "\<not> length f \<le> length post"
  then have lt: "length post < length f" by simp
  from assms(1) obtain r where eq: "ys @ post = r @ f" by (auto simp: ends_with_iff)
  then have "rev post @ rev ys = rev f @ rev r" by (metis rev_append)
  then have "(rev post @ rev ys) ! length post = (rev f @ rev r) ! length post" by simp
  then have "hd (rev ys) = rev f ! length post"
    using lt assms(2) by (simp add: nth_append hd_conv_nth)
  then have "last ys \<in> set f" using lt assms(2)
    by (metis hd_rev length_rev nth_mem set_rev)
  with assms(3) show False by simp
qed

lemma rstrip_cut_keeps_object:
  assumes "obj \<noteq> []" "last obj = CHR ''}''"
    and f: "ends_with f (pre @ obj @ post)" "CHR ''}'' \<notin> set f" "length f = n"
  shows "\<exists>post'. rstrip (take (length (pre @ obj @ post) - n) (pre @ obj @ post)) = pre @ obj @ post'"
proof -
  let ?s = "pre @ obj @ post"
  have ne: "pre @ obj \<noteq> []" and la: "last (pre @ obj) = CHR ''}''" using assms by simp_all
  have sp: "\<not> is_space (last (pre @ obj))" using la by (simp add: not_space_braces)
  have "length f \<le> length post"
    using ends_with_fence_length[of f "pre @ obj" post] f ne la by simp
  then have "take (length ?s - n) ?s = (pre @ obj) @ take (length post - n) post"
    using f(3) by simp
  then have "rstrip (take (length ?s - n) ?s) = (pre @ obj) @ rstrip (take (length post - n) post)"
    by (simp only: rstrip_append_stop[OF ne sp])
  then show ?thesis by (metis append_assoc)
qed

lemma sub_fence_close_keeps_object:
  assumes "obj \<noteq> []" "last obj = CHR ''}''"
  shows "\<exists>post'. sub_fence_close (pre @ obj @ post) = pre @ obj @ post'"
proof -
  let ?s = "pre @ obj @ post"
  show ?thesis
  proof (cases "ends_with ''```'' ?s")
    case True
    have "\<exists>post'. rstrip (take (length ?s - 3) ?s) = pre @ obj @ post'"
      by (rule rstrip_cut_keeps_object[OF assms True]) simp_all
    then show ?thesis unfolding sub_fence_close_def using True by (simp only: if_True)
  next
    case False
    show ?thesis
    proof (cases "ends_with ''```\<newline>'' ?s")
      case True
      have "\<exists>post'. rstrip (take (length ?s - 4) ?s) = pre @ obj @ post'"
        by (rule rstrip_cut_keeps_object[OF assms True]) simp_all
      then obtain post' where "rstrip (take (length ?s - 4) ?s) = pre @ obj @ post'" by blast
      then have "rstrip (take (length ?s - 4) ?s) @ ''\<newline>'' = pre @ obj @ (post' @ ''\<newline>'')"
        by simp
      then show ?thesis unfolding sub_fence_close_def using True False
        by (simp only: if_True if_False) blast
    next
      case F2: False
      with False show ?thesis by (auto simp: sub_fence_close_def)
    qed
  qed
qed


lemma scan_braces_complete:
  "0 < n \<Longrightarrow> n + brace_depth obj = 0 \<Longrightarrow>
   (\<forall>k<length obj. 0 < n + brace_depth (take k obj)) \<Longrightarrow>
   scan_braces n (obj @ post) = Some obj"
proof (induction obj arbitrary: n)
  case Nil
  then show ?case by simp
next
  case (Cons c cs)
  let ?d = "(if c = CHR ''{'' then 1 else if c = CHR ''}'' then - 1 else 0) :: int"
  have step: "\<forall>k<length cs. 0 < (n + ?d) + brace_depth (take k cs)"
  proof (intro allI impI)
    fix k assume "k < length cs"
    then have "Suc k < length (c # cs)" by simp
    with Cons.prems(3) have "0 < n + brace_depth (take (Suc k) (c # cs))" by blast
    then show "0 < (n + ?d) + brace_depth (take k cs)" by (simp add: algebra_simps)
  qed
  have sum: "(n + ?d) + brace_depth cs = 0" using Cons.prems(2) by (simp add: algebra_simps)
  show ?case
  proof (cases "cs = []")
    case True
    with sum Cons.prems(1) have "c = CHR ''}''" "n - 1 = 0" by (auto split: if_splits)
    with True show ?thesis by simp
  next
    case False
    then have "0 < length cs" by simp
    with step have pos: "0 < n + ?d" by fastforce
    from Cons.IH[OF pos sum step] have "scan_braces (n + ?d) (cs @ post) = Some cs" .
    with pos show ?thesis by (auto split: if_splits)
  qed
qed

lemma balanced_object_scan:
  assumes "balanced_object obj"
  shows "scan_braces 0 (obj @ post) = Some obj"
proof -
  from assms obtain cs where obj: "obj = CHR ''{'' # cs"
    by (cases obj) (auto simp: balanced_object_def)
  have d: "1 + brace_depth cs = 0" using assms by (simp add: balanced_object_def obj)
  have "\<forall>k<length cs. 0 < 1 + brace_depth (take k cs)"
  proof (intro allI impI)
    fix k assume k: "k < length cs"
    then have "Suc k \<in> set [1..<length obj]" by (auto simp: obj)
    with assms have "0 < brace_depth (take (Suc k) obj)"
      by (simp add: balanced_object_def list_all_iff)
    then show "0 < 1 + brace_depth (take k cs)" by (simp add: obj)
  qed
  from scan_braces_complete[OF _ d this] have "scan_braces 1 (cs @ post) = Some cs" by simp
  then show ?thesis by (simp add: obj)
qed

lemma balanced_object_ends:
  assumes "balanced_object obj"
  shows "obj \<noteq> []" "hd obj = CHR ''{''" "last obj = CHR ''}''"
proof -
  show "obj \<noteq> []" "hd obj = CHR ''{''" using assms by (simp_all add: balanced_object_def)
  from balanced_object_scan[OF assms, of "[]"] have "scan_braces 0 obj = Some obj" by simp
  from scan_braces_result[OF this] show "last obj = CHR ''}''" by simp
qed

lemma clean_json_string_around:
  assumes obj: "obj \<noteq> []" "hd obj = CHR ''{''" "last obj = CHR ''}''"
    and scan: "\<And>post. scan_braces 0 (obj @ post) = Some obj"
    and pre: "CHR ''{'' \<notin> set pre"
  shows "clean_json_string (pre @ obj @ post) = Inr obj"
proof -
  have 1: "strip (pre @ obj @ post) = lstrip pre @ obj @ rstrip post"
    by (rule strip_keeps_object[OF obj])
  obtain p2 where 2: "sub_fence_open (lstrip pre @ obj @ rstrip post) = p2 @ obj @ rstrip post"
    and p2: "set p2 \<subseteq> set (lstrip pre)"
    using sub_fence_open_keeps_object[OF obj(1,2)] by blast
  obtain q3 where 3: "sub_fence_close (p2 @ obj @ rstrip post) = p2 @ obj @ q3"
    using sub_fence_close_keeps_object[OF obj(1,3)] by blast
  have "set (lstrip pre) \<subseteq> set pre" by (auto simp: lstrip_def dest: set_dropWhileD)
  with p2 pre have nb: "CHR ''{'' \<notin> set p2" by blast
  from obj obtain cs where o: "obj = CHR ''{'' # cs" by (cases obj) auto
  have 4: "dropWhile (\<lambda>c. c \<noteq> CHR ''{'') (p2 @ obj @ q3) = obj @ q3"
    using nb by (simp add: dropWhile_append o)
  show ?thesis
    unfolding clean_json_string_def 1 2 3 Let_def 4 using scan[of q3] obj(1) by simp
qed

lemma scan_braces_append:
  "scan_braces n t = Some r \<Longrightarrow> scan_braces n (t @ post) = Some r"
  by (induction t arbitrary: n r) (auto split: if_splits)


text \<open>
  Claim C7. The fence-stripping and brace-extraction step is idempotent: whenever
  \<open>clean_json_string\<close> succeeds on a text, applying it to its own result succeeds
  again and returns that same result.
\<close>

theorem clean_json_string_idempotent:
  assumes "clean_json_string s = Inr r"
  shows "clean_json_string r = Inr r"
proof -
  define t where "t = dropWhile (\<lambda>c. c \<noteq> CHR ''{'') (sub_fence_close (sub_fence_open (strip s)))"
  from assms have ne: "t \<noteq> []" and sc: "scan_braces 0 t = Some r"
    by (auto simp: clean_json_string_def Let_def t_def split: if_splits option.splits)
  from ne have "hd t = CHR ''{''"
    unfolding t_def using hd_dropWhile[of "\<lambda>c. c \<noteq> CHR ''{''"] by blast
  moreover from scan_braces_result[OF sc] obtain post where
    r: "r \<noteq> []" "last r = CHR ''}''" "scan_braces 0 r = Some r" "t = r @ post" by blast
  ultimately have hd: "hd r = CHR ''{''" by simp
  have "clean_json_string ([] @ r @ []) = Inr r"
    by (rule clean_json_string_around[OF r(1) hd r(2)]) (simp_all add: scan_braces_append[OF r(3)])
  then show ?thesis by simp
qed

theorem clean_json_string_idempotent_witness:
  "clean_json_string (''Here: ```json'' @ fenced_reply_object @ ''``` done'') = Inr fenced_reply_object
   \<and> clean_json_string fenced_reply_object = Inr fenced_reply_object"
proof -
  have h: "clean_json_string (''Here: ```json'' @ fenced_reply_object @ ''``` done'') = Inr fenced_reply_object"
    by code_simp
  from clean_json_string_idempotent[OF h] h show ?thesis by simp
qed

text \<open>
  Claim C6. A balanced object wrapped in a triple-backtick fence, with any language tag
  (a tag holds no opening brace) or with none, and followed by prose after its closing
  brace, before or after the closing fence, is extracted exactly as from the unwrapped
  object. Only the opening fence \<^verbatim>\<open>```json\<close> is removed by the fence pattern itself; any
  other opening fence goes away with the text before the first brace.
\<close>

theorem clean_json_string_fenced:
  assumes "balanced_object obj" and "CHR ''{'' \<notin> set tag"
  shows "clean_json_string (''```'' @ tag @ ''\<newline>'' @ obj @ prose @ ''\<newline>```'' @ after)
           = clean_json_string obj
         \<and> clean_json_string obj = Inr obj"
proof -
  note e = balanced_object_ends[OF assms(1)]
  have a: "clean_json_string ((''```'' @ tag @ ''\<newline>'') @ obj @ (prose @ ''\<newline>```'' @ after)) = Inr obj"
    by (rule clean_json_string_around[OF e]) (simp_all add: balanced_object_scan[OF assms(1)] assms(2))
  have b: "clean_json_string ([] @ obj @ []) = Inr obj"
    by (rule clean_json_string_around[OF e]) (simp_all add: balanced_object_scan[OF assms(1)])
  from a b show ?thesis by simp
qed

theorem clean_json_string_fenced_witness:
  "balanced_object fenced_reply_object \<and> CHR ''{'' \<notin> set ''json'' \<and>
   clean_json_string (''```'' @ ''json'' @ ''\<newline>'' @ fenced_reply_object
       @ '' This is the diagram.'' @ ''\<newline>```'' @ []) = Inr fenced_reply_object \<and>
   clean_json_string (''```'' @ [] @ ''\<newline>'' @ fenced_reply_object
       @ [] @ ''\<newline>```'' @ '' Done.'') = Inr fenced_reply_object"
proof -
  have h1: "balanced_object fenced_reply_object" by code_simp
  have h2: "CHR ''{'' \<notin> set ''json''" by simp
  have h3: "CHR ''{'' \<notin> set ([] :: string)" by simp
  from clean_json_string_fenced[OF h1 h2, of "'' This is the diagram.''" "[]"]
    clean_json_string_fenced[OF h1 h3, of "[]" "'' Done.''"] h1 h2
  show ?thesis by simp
qed


section \<open>Properties of the transitive closure\<close>








section \<open>Properties of the retry wrapper\<close>


lemma call_llm_no_http_error: "call_llm configured reply \<noteq> Inl (HTTPError r)"
  by (auto simp: call_llm_def split: service_reply.splits reply_body.splits)

text \<open>
  The loop over any callee: it stops with the empty text when the retries are used up, it
  returns the text of a call that succeeds, it waits \<open>base_delay * 2 ^ retries\<close> and goes
  on after an \<^verbatim>\<open>HTTPError\<close> of status 429, and it returns the empty text at once after any
  other exception that carries a response.
\<close>

lemma retry_loop_exhausted:
  "\<not> int retries < max_retries \<Longrightarrow> retry_loop call max_retries base_delay retries sleeps = (Inr [], sleeps)"
  by (simp add: retry_loop.simps)

lemma retry_loop_returned:
  "int retries < max_retries \<Longrightarrow> call retries = Inr r \<Longrightarrow>
   retry_loop call max_retries base_delay retries sleeps =
     (Inr (case r of None \<Rightarrow> [] | Some result \<Rightarrow> strip result), sleeps)"
  by (simp add: retry_loop.simps split: option.splits)

lemma retry_loop_rate_limited:
  "int retries < max_retries \<Longrightarrow> call retries = Inl (HTTPError (Some 429)) \<Longrightarrow> 0 \<le> base_delay \<Longrightarrow>
   retry_loop call max_retries base_delay retries sleeps =
     retry_loop call max_retries base_delay (retries + 1) (sleeps @ [base_delay * 2 ^ retries])"
proof -
  assume a: "int retries < max_retries" "call retries = Inl (HTTPError (Some 429))" "0 \<le> base_delay"
  then have "\<not> base_delay * 2 ^ retries < 0" by (simp add: not_less)
  with a show ?thesis by (subst retry_loop.simps) (simp add: Let_def)
qed

lemma retry_loop_other_failure:
  "int retries < max_retries \<Longrightarrow> call retries = Inl e \<Longrightarrow> e \<noteq> HTTPError None \<Longrightarrow>
   e \<noteq> HTTPError (Some 429) \<Longrightarrow>
   retry_loop call max_retries base_delay retries sleeps = (Inr [], sleeps)"
  by (subst retry_loop.simps) (auto split: py_error.splits option.splits)

lemma retry_loop_no_raise:
  "0 \<le> base_delay \<Longrightarrow> (\<forall>k. call k \<noteq> Inl (HTTPError None)) \<Longrightarrow>
   \<exists>text. fst (retry_loop call max_retries base_delay retries sleeps) = Inr text"
proof (induction call max_retries base_delay retries sleeps rule: retry_loop.induct)
  case (1 call max_retries base_delay retries sleeps)
  show ?case
  proof (cases "int retries < max_retries")
    case False
    then show ?thesis by (simp add: retry_loop_exhausted)
  next
    case True
    show ?thesis
    proof (cases "call retries")
      case (Inr r)
      with True show ?thesis by (simp add: retry_loop_returned)
    next
      case (Inl e)
      show ?thesis
      proof (cases "e = HTTPError (Some 429)")
        case False
        with Inl True 1(3) have "retry_loop call max_retries base_delay retries sleeps = (Inr [], sleeps)"
          by (intro retry_loop_other_failure) auto
        then show ?thesis by simp
      next
        case e: True
        have "\<not> base_delay * 2 ^ retries < 0" using 1(2) by (simp add: not_less)
        moreover from Inl e have c: "call retries = Inl (HTTPError (Some 429))" by simp
        ultimately have "\<exists>text. fst (retry_loop call max_retries base_delay (retries + 1)
                 (sleeps @ [base_delay * 2 ^ retries])) = Inr text"
          using 1(1)[OF True c refl refl refl refl] 1(2,3) by blast
        moreover have "retry_loop call max_retries base_delay retries sleeps =
            retry_loop call max_retries base_delay (retries + 1) (sleeps @ [base_delay * 2 ^ retries])"
          using True c 1(2) by (rule retry_loop_rate_limited)
        ultimately show ?thesis by simp
      qed
    qed
  qed
qed

text \<open>
  Over \<^verbatim>\<open>call_llm\<close>, which never lets an \<^verbatim>\<open>HTTPError\<close> through, the wrapper makes one
  request and never waits, whatever the service does.
\<close>

lemma call_llm_single_one_request:
  "call_llm_single configured service max_retries base_delay =
     (if 0 < max_retries then
        (case call_llm configured (service 0) of Inl e \<Rightarrow> Inr [] | Inr text \<Rightarrow> Inr (strip text))
      else Inr [], [])"
proof (cases "0 < max_retries")
  case False
  then show ?thesis by (simp add: call_llm_single_def retry_loop_exhausted)
next
  case True
  then have lt: "int 0 < max_retries" by simp
  show ?thesis
  proof (cases "call_llm configured (service 0)")
    case (Inr answer)
    then show ?thesis using True retry_loop_returned[OF lt, where r = "Some answer"]
      by (simp add: call_llm_single_def)
  next
    case (Inl e)
    then have "e \<noteq> HTTPError None" "e \<noteq> HTTPError (Some 429)"
      using call_llm_no_http_error by metis+
    with Inl show ?thesis using True retry_loop_other_failure[OF lt, where e = e]
      by (simp add: call_llm_single_def)
  qed
qed

text \<open>
  Claim C8. The service answers the first request with the rate-limit status 429 and
  would answer the second one. \<^verbatim>\<open>call_llm\<close> hands the wrapper a \<^verbatim>\<open>RuntimeError\<close>, so
  \<open>call_llm_single\<close> returns the empty text at once, with no wait and no second request.
  The loop itself, given a callee that raises the \<^verbatim>\<open>HTTPError\<close>, waits
  \<open>base_delay * 2 ^ 0\<close> and returns the second answer.
\<close>

theorem call_llm_single_rate_limit_not_retried:
  "call_llm_single True limited_once 5 2 = (Inr [], []) \<and>
   call_llm True (limited_once 1) = Inr ''ALTER TABLE t ADD c INT'' \<and>
   retry_loop (\<lambda>k. if k = 0 then Inl (HTTPError (Some 429))
                    else Inr (Some ''ALTER TABLE t ADD c INT'')) 5 2 0 []
     = (Inr ''ALTER TABLE t ADD c INT'', [2])"
  by code_simp


section \<open>Properties of the final merge\<close>





















section \<open>Properties of the recovery of the reply\<close>


lemma has_key_update: "has_key (AList.update k v d) k' \<longleftrightarrow> k' = k \<or> has_key d k'"
  by (simp add: has_key_def update_conv')

lemma repair_erd_keys:
  assumes "repair_erd decoded = Inr r"
  shows "\<exists>d. r = JObj d \<and> has_key d ''nodes'' \<and> has_key d ''edges''"
  using assms
  by (auto simp: repair_erd_def has_key_update split: json.splits sum.splits if_splits)

text \<open>
  Claim C10. For every decoder and every response text, \<open>parse_erd_json\<close> returns
  \<^verbatim>\<open>None\<close> or a dictionary that has both the key \<^verbatim>\<open>nodes\<close> and the key \<^verbatim>\<open>edges\<close>; every
  exception of its body (no object in the text, a decoding error, a missing key, a value
  of the wrong type) is a branch of the model and ends in \<^verbatim>\<open>None\<close>.
\<close>

theorem parse_erd_json_total:
  "parse_erd_json loads response = None \<or>
   (\<exists>d. parse_erd_json loads response = Some (JObj d) \<and> has_key d ''nodes'' \<and> has_key d ''edges'')"
proof (cases "parse_erd_json_try loads response")
  case (Inl e)
  then show ?thesis by (simp add: parse_erd_json_def)
next
  case (Inr r)
  then have "\<exists>decoded. repair_erd decoded = Inr r"
    by (auto simp: parse_erd_json_try_def Let_def split: option.splits)
  then obtain d where "r = JObj d" "has_key d ''nodes''" "has_key d ''edges''"
    using repair_erd_keys by blast
  with Inr show ?thesis by (simp add: parse_erd_json_def)
qed



theorem parse_erd_json_total_witness:
  "parse_erd_json example_loads fenced_reply_object \<noteq> None \<and>
   (\<exists>d. parse_erd_json example_loads fenced_reply_object = Some (JObj d) \<and>
        has_key d ''nodes'' \<and> has_key d ''edges'') \<and>
   parse_erd_json example_loads edges_only_text = None \<and>
   parse_erd_json example_loads ''no object here'' = None"
proof -
  have a: "parse_erd_json example_loads fenced_reply_object \<noteq> None" by code_simp
  have b: "parse_erd_json example_loads edges_only_text = None" by code_simp
  have c: "parse_erd_json example_loads ''no object here'' = None" by code_simp
  from parse_erd_json_total[of example_loads fenced_reply_object] a b c show ?thesis by simp
qed


lemma dict_get_update: "dict_get (AList.update k v d) k' dflt = (if k' = k then v else dict_get d k' dflt)"
  by (simp add: dict_get_def update_conv')

lemma dict_get_delete: "k' \<noteq> k \<Longrightarrow> dict_get (AList.delete k d) k' dflt = dict_get d k' dflt"
  by (simp add: dict_get_def delete_conv')

lemma dict_get_append_other:
  "k' \<noteq> k \<Longrightarrow> dict_get (d @ [(k, v)]) k' dflt = dict_get d k' dflt"
  by (simp add: dict_get_def map_add_def split: option.splits)

lemma dict_get_setdefault:
  "k' \<noteq> k \<Longrightarrow> dict_get (setdefault k v d) k' dflt = dict_get d k' dflt"
  by (simp add: setdefault_def dict_get_append_other)

lemma map_err_length: "map_err f xs = Inr ys \<Longrightarrow> length ys = length xs"
  by (induction xs arbitrary: ys) (auto split: sum.splits)

lemma map_err_preserves:
  assumes "map_err f xs = Inr ys" and "\<And>x y. f x = Inr y \<Longrightarrow> g y = h x"
  shows "map g ys = map h xs"
  using assms(1)
proof (induction xs arbitrary: ys)
  case Nil
  then show ?case by simp
next
  case (Cons x xs)
  then show ?case by (auto split: sum.splits simp: assms(2))
qed

lemma normalize_column_name: "normalize_column col = Inr col' \<Longrightarrow> entry_name col' = entry_name col"
  by (auto simp: normalize_column_def entry_name_def dict_get_def split: json.splits)

lemma default_column_name: "default_column col = Inr col' \<Longrightarrow> entry_name col' = entry_name col"
  by (auto simp: default_column_def entry_name_def dict_get_setdefault split: json.splits)

lemma node_columns_source_cong:
  "dict_get d' ''columns'' JNull = dict_get d ''columns'' JNull \<Longrightarrow>
   dict_get d' ''data'' JNull = dict_get d ''data'' JNull \<Longrightarrow>
   node_columns_source d' = node_columns_source d"
  by (simp add: node_columns_source_def)

lemma normalize_erd_node_names:
  assumes "normalize_erd_node n = Inr n'"
  shows "node_column_names n' = decoded_column_names n"
proof -
  from assms obtain d where n: "n = JObj d"
    by (cases n) (auto simp: normalize_erd_node_def)
  let ?node = "AList.update ''type'' (JStr ''table'') d"
  have src: "node_columns_source ?node = node_columns_source d"
    by (rule node_columns_source_cong) (simp_all add: dict_get_update)
  from assms n obtain cols ncols where
    it: "py_iter (node_columns_source d) = Inr cols" and
    me: "map_err normalize_column cols = Inr ncols" and
    n': "n' = JObj (AList.delete ''data'' (AList.update ''columns'' (JArr ncols) ?node))"
    by (auto simp: normalize_erd_node_def Let_def src split: sum.splits)
  have "map entry_name ncols = map entry_name cols"
    using me by (rule map_err_preserves) (rule normalize_column_name)
  then show ?thesis
    by (simp add: n n' node_column_names_def decoded_column_names_def iter_names_def it
        dict_get_delete dict_get_update)
qed

lemma default_columns_names:
  assumes "default_columns v = Inr v'"
  shows "truthy v' = truthy v \<and> iter_names v' = iter_names v"
proof (cases v)
  case (JArr cols)
  with assms obtain cols' where c: "map_err default_column cols = Inr cols'" and v': "v' = JArr cols'"
    by (auto simp: default_columns_def split: sum.splits)
  have "map entry_name cols' = map entry_name cols"
    using c by (rule map_err_preserves) (rule default_column_name)
  moreover have "length cols' = length cols" using c by (rule map_err_length)
  ultimately show ?thesis by (auto simp: JArr v' iter_names_def)
qed (use assms in \<open>auto simp: default_columns_def split: if_splits\<close>)

lemma source_names_cong:
  "truthy c' = truthy c \<Longrightarrow> iter_names c' = iter_names c \<Longrightarrow>
   iter_names (py_or (py_or c' dat) e) = iter_names (py_or (py_or c dat) e)"
  by (simp add: py_or_def)

lemma default_node_names:
  assumes "default_node n = Inr n'"
  shows "decoded_column_names n' = decoded_column_names n"
proof -
  from assms obtain d where n: "n = JObj d" by (cases n) (auto simp: default_node_def)
  let ?node = "setdefault ''type'' (JStr ''table'') d"
  have same: "node_columns_source ?node = node_columns_source d"
    by (rule node_columns_source_cong) (simp_all add: dict_get_setdefault)
  show ?thesis
  proof (cases "map_of ?node ''columns''")
    case None
    with assms n have "n' = JObj ?node" by (simp add: default_node_def Let_def)
    then show ?thesis by (simp add: n decoded_column_names_def same)
  next
    case (Some columns)
    with assms n obtain columns' where dc: "default_columns columns = Inr columns'"
      and n': "n' = JObj (AList.update ''columns'' columns' ?node)"
      by (auto simp: default_node_def Let_def split: sum.splits)
    from Some have g: "dict_get ?node ''columns'' JNull = columns" by (simp add: dict_get_def)
    note p = default_columns_names[OF dc]
    have "iter_names (py_or (py_or columns' (dict_get ?node ''data'' JNull)) (JArr []))
        = iter_names (py_or (py_or columns (dict_get ?node ''data'' JNull)) (JArr []))"
      by (rule source_names_cong) (simp_all add: p)
    then have "iter_names (node_columns_source (AList.update ''columns'' columns' ?node))
        = iter_names (node_columns_source ?node)"
      by (simp add: node_columns_source_def dict_get_update g)
    then show ?thesis by (simp add: n n' decoded_column_names_def same)
  qed
qed

lemma hoist_edges_names:
  "hoist_edges ns c e = Inr (c', e') \<Longrightarrow>
   map decoded_column_names c' = map decoded_column_names (c @ ns)"
proof (induction ns arbitrary: c e)
  case Nil
  then show ?case by simp
next
  case (Cons node rest)
  show ?case
  proof (cases node)
    case (JObj d)
    show ?thesis
    proof (cases "map_of d ''edges''")
      case None
      with Cons.prems JObj have "hoist_edges rest (c @ [node]) e = Inr (c', e')" by simp
      from Cons.IH[OF this] show ?thesis by simp
    next
      case (Some es)
      with Cons.prems JObj obtain items where
        h: "hoist_edges rest (c @ [JObj (AList.delete ''edges'' d)]) (e @ items) = Inr (c', e')"
        by (auto split: sum.splits)
      have "node_columns_source (AList.delete ''edges'' d) = node_columns_source d"
        by (rule node_columns_source_cong) (simp_all add: dict_get_delete)
      then have "decoded_column_names (JObj (AList.delete ''edges'' d)) = decoded_column_names node"
        by (simp add: JObj decoded_column_names_def)
      with Cons.IH[OF h] show ?thesis by simp
    qed
  next
    case (JArr xs)
    with Cons.prems have "hoist_edges rest (c @ [node]) e = Inr (c', e')" by (simp split: if_splits)
    from Cons.IH[OF this] show ?thesis by simp
  next
    case (JStr s)
    with Cons.prems have "hoist_edges rest (c @ [node]) e = Inr (c', e')" by (simp split: if_splits)
    from Cons.IH[OF this] show ?thesis by simp
  qed (use Cons.prems in auto)
qed



lemma default_nodes_names:
  assumes "default_nodes v = Inr v'"
  shows "map decoded_column_names (case py_iter v' of Inl e \<Rightarrow> [] | Inr ns \<Rightarrow> ns)
       = map decoded_column_names (case py_iter v of Inl e \<Rightarrow> [] | Inr ns \<Rightarrow> ns)"
proof (cases v)
  case (JArr ns)
  with assms obtain ns' where c: "map_err default_node ns = Inr ns'" and v': "v' = JArr ns'"
    by (auto simp: default_nodes_def split: sum.splits)
  have "map decoded_column_names ns' = map decoded_column_names ns"
    using c by (rule map_err_preserves) (rule default_node_names)
  then show ?thesis by (simp add: JArr v')
qed (use assms in \<open>auto simp: default_nodes_def split: if_splits\<close>)

lemma fix_edge_nesting_nodes:
  assumes "fix_edge_nesting p0 = Inr p1"
  shows "map decoded_column_names (case py_iter (dict_get p1 ''nodes'' JNull) of Inl e \<Rightarrow> [] | Inr ns \<Rightarrow> ns)
       = map decoded_column_names (case py_iter (dict_get p0 ''nodes'' JNull) of Inl e \<Rightarrow> [] | Inr ns \<Rightarrow> ns)"
proof (cases "dict_get p0 ''nodes'' JNull")
  case (JArr nodes)
  with assms obtain corrected extracted where
    h: "hoist_edges nodes [] [] = Inr (corrected, extracted)"
    by (auto simp: fix_edge_nesting_def split: sum.splits)
  let ?p = "AList.update ''nodes'' (JArr corrected) p0"
  from assms JArr h have "dict_get p1 ''nodes'' JNull = JArr corrected"
    by (auto simp: fix_edge_nesting_def Let_def dict_get_update dict_get_append_other
        split: option.splits json.splits)
  moreover from hoist_edges_names[OF h]
  have "map decoded_column_names corrected = map decoded_column_names nodes" by simp
  ultimately show ?thesis by (simp add: JArr)
qed (use assms in \<open>auto simp: fix_edge_nesting_def\<close>)

lemma has_key_get: "has_key d k \<Longrightarrow> dict_get d k dflt = dict_get d k dflt'"
  by (auto simp: has_key_def dict_get_def)

lemma repair_erd_names:
  assumes "repair_erd decoded = Inr (JObj p)"
    and "py_iter (dict_get p ''nodes'' (JArr [])) = Inr ns"
  shows "map decoded_column_names ns = map decoded_column_names (decoded_nodes decoded)"
proof -
  from assms(1) obtain p0 where d: "decoded = JObj p0"
    by (cases decoded) (auto simp: repair_erd_def)
  from assms(1) d obtain p1 nodes where
    f: "fix_edge_nesting p0 = Inr p1" and hk: "has_key p1 ''nodes''" and
    dn: "default_nodes (dict_get p1 ''nodes'' JNull) = Inr nodes" and
    p: "p = AList.update ''nodes'' nodes p1"
    by (auto simp: repair_erd_def split: sum.splits if_splits)
  have hk0: "has_key p0 ''nodes''"
    using f hk by (auto simp: fix_edge_nesting_def has_key_def dict_get_def
        split: option.splits json.splits sum.splits)
  from assms(2) p have "py_iter nodes = Inr ns" by (simp add: dict_get_update)
  then have "map decoded_column_names ns
      = map decoded_column_names (case py_iter nodes of Inl e \<Rightarrow> [] | Inr ns \<Rightarrow> ns)" by simp
  also have "\<dots> = map decoded_column_names
      (case py_iter (dict_get p1 ''nodes'' JNull) of Inl e \<Rightarrow> [] | Inr ns \<Rightarrow> ns)"
    by (rule default_nodes_names[OF dn])
  also have "\<dots> = map decoded_column_names
      (case py_iter (dict_get p0 ''nodes'' JNull) of Inl e \<Rightarrow> [] | Inr ns \<Rightarrow> ns)"
    by (rule fix_edge_nesting_nodes[OF f])
  also have "\<dots> = map decoded_column_names (decoded_nodes decoded)"
    using has_key_get[OF hk0, of JNull "JArr []"] by (simp add: decoded_nodes_def d)
  finally show ?thesis .
qed


section \<open>Properties of the chunk loop\<close>


text \<open>
  Claim C9, as the code has it. Nothing in the recovery or the normalization removes or
  renames a column: the \<open>columns\<close> list of every node of a recovered chunk carries the
  names of the column entries of the decoded node it comes from, in their order and with
  their repetitions. So it has two columns of one name exactly when the decoded node has.
\<close>

theorem chunk_result_column_names:
  assumes "chunk_result loads raw_erd = Inr (nodes, edges)"
  shows "\<exists>decoded. decoded_reply loads raw_erd = Some decoded \<and>
           map node_column_names nodes = map decoded_column_names (decoded_nodes decoded)"
proof -
  from assms obtain cleaned parsed ns where
    c: "clean_json_string raw_erd = Inr cleaned" and
    p: "parse_erd_json loads cleaned = Some (JObj parsed)" and
    it: "py_iter (dict_get parsed ''nodes'' (JArr [])) = Inr ns" and
    me: "map_err normalize_erd_node ns = Inr nodes"
    by (auto simp: chunk_result_def split: sum.splits option.splits json.splits)
  from p obtain matched decoded where
    m: "search_object cleaned = Some matched" and
    l: "loads (json_text matched) = Some decoded" and
    r: "repair_erd decoded = Inr (JObj parsed)"
    by (auto simp: parse_erd_json_def parse_erd_json_try_def split: sum.splits option.splits)
  have "map node_column_names nodes = map decoded_column_names ns"
    using me by (rule map_err_preserves) (rule normalize_erd_node_names)
  also have "\<dots> = map decoded_column_names (decoded_nodes decoded)"
    by (rule repair_erd_names[OF r it])
  finally show ?thesis using c m l by (simp add: decoded_reply_def)
qed

theorem chunk_result_column_names_witness:
  "chunk_result example_loads twin_columns_text = Inr ([twin_columns_node], JArr []) \<and>
   decoded_reply example_loads twin_columns_text = Some twin_columns_value \<and>
   map node_column_names [twin_columns_node]
     = map decoded_column_names (decoded_nodes twin_columns_value)"
proof -
  have h: "chunk_result example_loads twin_columns_text = Inr ([twin_columns_node], JArr [])"
    by code_simp
  have d: "decoded_reply example_loads twin_columns_text = Some twin_columns_value"
    by code_simp
  from chunk_result_column_names[OF h] d h show ?thesis by simp
qed

text \<open>
  The claim as it was stated fails: a reply whose node lists the column \<open>a\<close> twice is
  recovered and normalized into a node whose \<open>columns\<close> list holds the name \<open>a\<close> twice.
\<close>

theorem chunk_result_twin_columns:
  "chunk_result example_loads twin_columns_text = Inr ([twin_columns_node], JArr []) \<and>
   node_column_names twin_columns_node = [JStr ''a'', JStr ''a''] \<and>
   \<not> distinct (node_column_names twin_columns_node)"
  by code_simp



lemma filter_dropWhile_skip:
  "(\<And>x. Q x \<Longrightarrow> \<not> P x) \<Longrightarrow> filter P (dropWhile Q xs) = filter P xs"
  by (induction xs) auto

lemma space_not_brace: "is_space c \<Longrightarrow> \<not> (c = CHR ''{'' \<or> c = CHR ''}'')"
  using not_space_braces by auto

lemma braces_of_lstrip: "braces_of (dropWhile is_space s) = braces_of s"
  unfolding braces_of_def by (rule filter_dropWhile_skip) (rule space_not_brace)

lemma braces_of_rstrip: "braces_of (rstrip s) = braces_of s"
proof -
  have "braces_of (rev (dropWhile is_space (rev s))) = rev (braces_of (dropWhile is_space (rev s)))"
    by (simp add: braces_of_def rev_filter)
  also have "\<dots> = rev (braces_of (rev s))" by (simp add: braces_of_lstrip)
  also have "\<dots> = braces_of s" by (simp add: braces_of_def rev_filter)
  finally show ?thesis by (simp add: rstrip_def)
qed

lemma braces_of_strip: "braces_of (strip s) = braces_of s"
  by (simp add: strip_def lstrip_def braces_of_rstrip braces_of_lstrip)

lemma braces_of_append: "braces_of (xs @ ys) = braces_of xs @ braces_of ys"
  by (simp add: braces_of_def)

lemma starts_with_ci_drop_braces:
  "starts_with_ci p s \<Longrightarrow>
   \<forall>x\<in>set p. lower_ascii x \<noteq> lower_ascii (CHR ''{'') \<and> lower_ascii x \<noteq> lower_ascii (CHR ''}'') \<Longrightarrow>
   braces_of (drop (length p) s) = braces_of s"
  by (induction p s rule: starts_with_ci.induct) (auto simp: braces_of_def)

lemma fence_open_no_braces:
  "\<forall>x\<in>set ''```json''. lower_ascii x \<noteq> lower_ascii (CHR ''{'') \<and> lower_ascii x \<noteq> lower_ascii (CHR ''}'')"
  by (simp add: lower_ascii_def)

lemma braces_of_sub_fence_open: "braces_of (sub_fence_open s) = braces_of s"
proof (cases "starts_with_ci ''```json'' s")
  case True
  have len: "length ''```json'' = (7::nat)" by simp
  from starts_with_ci_drop_braces[OF True fence_open_no_braces]
  have "braces_of (drop 7 s) = braces_of s" unfolding len .
  with True show ?thesis by (simp add: sub_fence_open_def braces_of_lstrip)
next
  case False
  then show ?thesis by (simp add: sub_fence_open_def)
qed

lemma braces_of_cut:
  assumes "ends_with f s" "braces_of f = []" "length f = n"
  shows "braces_of (rstrip (take (length s - n) s)) = braces_of s"
proof -
  from assms(1) obtain r where s: "s = r @ f" by (auto simp: ends_with_iff)
  then have "take (length s - n) s = r" using assms(3) by simp
  then show ?thesis by (simp add: braces_of_rstrip s braces_of_append assms(2))
qed

lemma braces_of_sub_fence_close: "braces_of (sub_fence_close s) = braces_of s"
proof (cases "ends_with ''```'' s")
  case True
  have "braces_of (rstrip (take (length s - 3) s)) = braces_of s"
    by (rule braces_of_cut[OF True]) (simp_all add: braces_of_def)
  with True show ?thesis by (simp add: sub_fence_close_def)
next
  case False
  show ?thesis
  proof (cases "ends_with ''```\<newline>'' s")
    case True
    have "braces_of (rstrip (take (length s - 4) s)) = braces_of s"
      by (rule braces_of_cut[OF True]) (simp_all add: braces_of_def)
    with True False show ?thesis by (simp add: sub_fence_close_def braces_of_append braces_of_def)
  next
    case F: False
    with False show ?thesis by (simp add: sub_fence_close_def)
  qed
qed

lemma braces_of_cleaned:
  "braces_of (sub_fence_close (sub_fence_open (strip s))) = braces_of s"
  by (simp add: braces_of_sub_fence_close braces_of_sub_fence_open braces_of_strip)

lemma braces_of_from_brace:
  "braces_of (dropWhile (\<lambda>c. c \<noteq> CHR ''{'') s) = dropWhile (\<lambda>c. c \<noteq> CHR ''{'') (braces_of s)"
  by (induction s) (auto simp: braces_of_def)

lemma scan_braces_braces_of:
  "scan_braces n (braces_of t) = None \<longleftrightarrow> scan_braces n t = None"
  by (induction t arbitrary: n) (auto simp: braces_of_def)

lemma scan_braces_never:
  "(\<forall>k. 0 < k \<and> k \<le> length t \<longrightarrow> n + brace_depth (take k t) \<noteq> 0) \<Longrightarrow> scan_braces n t = None"
proof (induction t arbitrary: n)
  case Nil
  then show ?case by simp
next
  case (Cons c cs)
  let ?d = "(if c = CHR ''{'' then 1 else if c = CHR ''}'' then - 1 else 0) :: int"
  from Cons.prems have one: "n + ?d \<noteq> 0" by (fastforce dest: spec[of _ 1])
  have "\<forall>k. 0 < k \<and> k \<le> length cs \<longrightarrow> (n + ?d) + brace_depth (take k cs) \<noteq> 0"
  proof (intro allI impI)
    fix k assume "0 < k \<and> k \<le> length cs"
    then have "0 < Suc k \<and> Suc k \<le> length (c # cs)" by simp
    with Cons.prems have "n + brace_depth (take (Suc k) (c # cs)) \<noteq> 0" by blast
    then show "(n + ?d) + brace_depth (take k cs) \<noteq> 0" by (simp add: algebra_simps)
  qed
  from Cons.IH[OF this] one show ?case by (auto split: if_splits)
qed

lemma never_closes_scan:
  assumes "never_closes s"
  shows "scan_braces 0 (dropWhile (\<lambda>c. c \<noteq> CHR ''{'') s) = None"
proof (rule scan_braces_never, intro allI impI)
  fix k assume "0 < k \<and> k \<le> length (dropWhile (\<lambda>c. c \<noteq> CHR ''{'') s)"
  then have "k \<in> set [1..<Suc (length (dropWhile (\<lambda>c. c \<noteq> CHR ''{'') s))]" by auto
  moreover have "\<forall>k\<in>set [1..<Suc (length (dropWhile (\<lambda>c. c \<noteq> CHR ''{'') s))].
      brace_depth (take k (dropWhile (\<lambda>c. c \<noteq> CHR ''{'') s)) \<noteq> 0"
    using assms unfolding never_closes_def Let_def list_all_iff .
  ultimately have "brace_depth (take k (dropWhile (\<lambda>c. c \<noteq> CHR ''{'') s)) \<noteq> 0" by blast
  then show "0 + brace_depth (take k (dropWhile (\<lambda>c. c \<noteq> CHR ''{'') s)) \<noteq> 0" by simp
qed

lemma no_brace_never_closes: "CHR ''{'' \<notin> set s \<Longrightarrow> never_closes s"
proof -
  assume "CHR ''{'' \<notin> set s"
  then have "\<forall>x\<in>set s. x \<noteq> CHR ''{''" by blast
  then have e: "dropWhile (\<lambda>c. c \<noteq> CHR ''{'') s = []" by (simp add: dropWhile_eq_Nil_conv)
  show ?thesis unfolding never_closes_def Let_def e by simp
qed

lemma clean_json_string_never_closes:
  assumes "never_closes s"
  shows "\<exists>msg. clean_json_string s = Inl (ValueError msg)"
proof -
  let ?cleaned = "sub_fence_close (sub_fence_open (strip s))"
  let ?dw = "dropWhile (\<lambda>c. c \<noteq> CHR ''{'')"
  have "scan_braces 0 (braces_of (?dw s)) = None"
    using never_closes_scan[OF assms] by (simp add: scan_braces_braces_of)
  then have "scan_braces 0 (braces_of (?dw ?cleaned)) = None"
    by (simp add: braces_of_from_brace braces_of_cleaned)
  then have "scan_braces 0 (?dw ?cleaned) = None" by (simp add: scan_braces_braces_of)
  then show ?thesis by (simp add: clean_json_string_def Let_def)
qed

lemma chunk_loop_append:
  "chunk_loop loads (xs @ ys) acc = chunk_loop loads ys (chunk_loop loads xs acc)"
  by (induction xs arbitrary: acc) auto

text \<open>
  Claim C5. On a reply that has no opening brace, or whose brace depth counted from the
  first opening brace never returns to zero, \<open>clean_json_string\<close> raises its
  \<^verbatim>\<open>ValueError\<close> and returns no value; the round of the chunk loop catches it and leaves
  \<^verbatim>\<open>all_nodes\<close> and \<^verbatim>\<open>all_edges\<close> as they were, and the loop over the replies gives what it
  gives without that reply: the chunks before and after it are processed as usual.
\<close>

theorem chunk_loop_skips_unclosed:
  assumes "CHR ''{'' \<notin> set raw_erd \<or> never_closes raw_erd"
  shows "(\<exists>msg. clean_json_string raw_erd = Inl (ValueError msg)) \<and>
         chunk_step loads raw_erd acc = acc \<and>
         chunk_loop loads (before @ raw_erd # rest) acc = chunk_loop loads (before @ rest) acc"
proof -
  from assms have nc: "never_closes raw_erd" using no_brace_never_closes by blast
  from clean_json_string_never_closes[OF nc] obtain msg where
    c: "clean_json_string raw_erd = Inl (ValueError msg)" by blast
  then have step: "chunk_step loads raw_erd a = a" for a
    by (simp add: chunk_step_def chunk_result_def)
  then show ?thesis using c by (simp add: chunk_loop_append)
qed

theorem chunk_loop_skips_unclosed_witness:
  "never_closes truncated_reply \<and>
   clean_json_string truncated_reply = Inl (ValueError ''No complete JSON object found in the string'') \<and>
   chunk_loop example_loads [fenced_reply_object, truncated_reply, twin_columns_text] ([], [])
     = chunk_loop example_loads [fenced_reply_object, twin_columns_text] ([], []) \<and>
   chunk_loop example_loads [fenced_reply_object, twin_columns_text] ([], [])
     = ([JObj [(''id'', JStr ''T''), (''type'', JStr ''table''), (''columns'', JArr [])],
         twin_columns_node], [])"
proof -
  have n: "never_closes truncated_reply" by code_simp
  have c: "clean_json_string truncated_reply = Inl (ValueError ''No complete JSON object found in the string'')"
    by code_simp
  have v: "chunk_loop example_loads [fenced_reply_object, twin_columns_text] ([], [])
     = ([JObj [(''id'', JStr ''T''), (''type'', JStr ''table''), (''columns'', JArr [])],
         twin_columns_node], [])"
    by code_simp
  from chunk_loop_skips_unclosed[OF disjI2[OF n], of example_loads "([], [])" "[fenced_reply_object]" "[twin_columns_text]"]
  show ?thesis using n c v by simp
qed


section \<open>Properties of the DDL synthesis\<close>







subsection \<open>Substitution of a pattern\<close>


lemma starts_pattern_simps:
  "starts_pattern ci [] s = True"
  "starts_pattern ci (p # ps) [] = False"
  "starts_pattern ci (p # ps) (c # cs) = (eq_char ci p c \<and> starts_pattern ci ps cs)"
  by (auto simp: starts_pattern_def eq_char_def)

lemma starts_pattern_length: "starts_pattern ci pre s \<Longrightarrow> length pre \<le> length s"
proof (induction pre arbitrary: s)
  case Nil
  then show ?case by simp
next
  case (Cons p ps)
  then show ?case by (cases s) (auto simp: starts_pattern_simps)
qed

lemma starts_pattern_append:
  "length pre \<le> length u \<Longrightarrow> starts_pattern ci pre (u @ w) = starts_pattern ci pre u"
proof (induction pre arbitrary: u)
  case Nil
  then show ?case by (simp add: starts_pattern_simps)
next
  case (Cons p ps)
  then show ?case by (cases u) (auto simp: starts_pattern_simps)
qed

lemma starts_pattern_outside:
  "starts_pattern ci pre (u @ x # v) \<Longrightarrow> list_all (\<lambda>p. \<not> eq_char ci p x) pre \<Longrightarrow>
   length pre \<le> length u"
proof (induction pre arbitrary: u)
  case Nil
  then show ?case by simp
next
  case (Cons p ps)
  then show ?case by (cases u) (auto simp: starts_pattern_simps)
qed

lemma match_gap_alt:
  "match_gap ci pre post s = Some rest \<longleftrightarrow>
     starts_pattern ci pre s \<and> dropWhile is_space (drop (length pre) s) = post # rest"
  by (cases "dropWhile is_space (drop (length pre) s)")
     (simp_all add: match_gap_def starts_pattern_def del: dropWhile_eq_Nil_conv)

lemma match_gap_append:
  assumes "match_gap ci pre post s = Some rest"
  shows "match_gap ci pre post (s @ v) = Some (rest @ v)"
proof -
  from assms have sp: "starts_pattern ci pre s"
    and dw: "dropWhile is_space (drop (length pre) s) = post # rest"
    by (simp_all add: match_gap_alt)
  from sp have len: "length pre \<le> length s" by (rule starts_pattern_length)
  have "\<not> (\<forall>c\<in>set (drop (length pre) s). is_space c)"
    using dw by (metis dropWhile_eq_Nil_conv list.distinct(1))
  then have "dropWhile is_space (drop (length pre) s @ v) = dropWhile is_space (drop (length pre) s) @ v"
    by (auto simp: dropWhile_append)
  with dw len sp show ?thesis by (simp add: match_gap_alt starts_pattern_append)
qed

lemma match_gap_before_outside:
  assumes "match_gap ci pre post (u @ x # v) = Some rest" and "outside ci pre post x"
  shows "\<exists>rest'. rest = rest' @ x # v \<and> match_gap ci pre post u = Some rest'"
proof -
  from assms(2) have x: "x \<noteq> post" "\<not> is_space x" "list_all (\<lambda>p. \<not> eq_char ci p x) pre"
    by (simp_all add: outside_def)
  from assms(1) have sp: "starts_pattern ci pre (u @ x # v)"
    and dw: "dropWhile is_space (drop (length pre) (u @ x # v)) = post # rest"
    by (simp_all add: match_gap_alt)
  from starts_pattern_outside[OF sp x(3)] have len: "length pre \<le> length u" .
  let ?d = "drop (length pre) u"
  have "dropWhile is_space (?d @ x # v) = dropWhile is_space ?d @ x # v"
    using x(2) by (intro dropWhile_append_stop) simp_all
  with dw len have eq: "dropWhile is_space ?d @ x # v = post # rest" by simp
  then obtain rest' where r: "dropWhile is_space ?d = post # rest'" "rest = rest' @ x # v"
    using x(1) by (cases "dropWhile is_space ?d") auto
  with sp len show ?thesis by (auto simp: match_gap_alt starts_pattern_append)
qed

lemma match_gap_before_tail:
  assumes "match_gap ci pre post (u @ w) = Some rest" and "post \<notin> set w"
  shows "\<exists>rest'. rest = rest' @ w \<and> match_gap ci pre post u = Some rest'"
proof -
  from assms(1) have sp: "starts_pattern ci pre (u @ w)"
    and dw: "dropWhile is_space (drop (length pre) (u @ w)) = post # rest"
    by (simp_all add: match_gap_alt)
  let ?d = "drop (length pre) u" and ?w = "drop (length pre - length u) w"
  have dw2: "dropWhile is_space (?d @ ?w) = post # rest" using dw by simp
  have pw: "post \<notin> set ?w" using assms(2) by (meson in_set_dropD)
  have nd: "dropWhile is_space ?d \<noteq> []"
  proof
    assume e: "dropWhile is_space ?d = []"
    then have "\<forall>c\<in>set ?d. is_space c" by (simp add: dropWhile_eq_Nil_conv)
    then have "dropWhile is_space (?d @ ?w) = dropWhile is_space ?w" by (simp add: dropWhile_append)
    with dw2 have "post \<in> set (dropWhile is_space ?w)" by simp
    then have "post \<in> set ?w" by (rule set_dropWhileD)
    with pw show False by simp
  qed
  then have dne: "?d \<noteq> []" by auto
  then have len: "length pre \<le> length u" by simp
  then have w: "?w = w" by simp
  have "\<not> (\<forall>c\<in>set ?d. is_space c)"
    using nd by (metis dropWhile_eq_Nil_conv)
  then have "dropWhile is_space (?d @ w) = dropWhile is_space ?d @ w"
    by (auto simp: dropWhile_append)
  with dw2 w have eq: "dropWhile is_space ?d @ w = post # rest" by simp
  then obtain rest' where r: "dropWhile is_space ?d = post # rest'" "rest = rest' @ w"
    using nd by (cases "dropWhile is_space ?d") auto
  with sp len show ?thesis by (auto simp: match_gap_alt starts_pattern_append)
qed

lemma match_gap_Nil: "match_gap ci pre post [] = None"
  by (simp add: match_gap_def)

lemma sub_gap_tail_id:
  "post \<notin> set w \<Longrightarrow> sub_gap ci pre post repl w = w"
proof (induction ci pre post repl w rule: sub_gap.induct)
  case (1 ci pre post repl)
  then show ?case by (simp add: sub_gap.simps)
next
  case (2 ci pre post repl c cs)
  have "match_gap ci pre post (c # cs) = None"
  proof (cases "match_gap ci pre post (c # cs)")
    case (Some rest)
    then have "dropWhile is_space (drop (length pre) (c # cs)) = post # rest"
      by (simp add: match_gap_alt)
    then have "post \<in> set (dropWhile is_space (drop (length pre) (c # cs)))" by simp
    then have "post \<in> set (c # cs)" by (meson set_dropWhileD in_set_dropD)
    with 2(3) show ?thesis by simp
  qed simp
  with 2 show ?case by (simp add: sub_gap.simps)
qed

lemma sub_gap_tail:
  "post \<notin> set w \<Longrightarrow> sub_gap ci pre post repl (u @ w) = sub_gap ci pre post repl u @ w"
proof (induction ci pre post repl u rule: sub_gap.induct)
  case (1 ci pre post repl)
  then show ?case by (simp add: sub_gap.simps sub_gap_tail_id)
next
  case (2 ci pre post repl c cs)
  show ?case
  proof (cases "match_gap ci pre post (c # cs)")
    case None
    have "match_gap ci pre post ((c # cs) @ w) = None"
    proof (cases "match_gap ci pre post ((c # cs) @ w)")
      case (Some rest)
      from match_gap_before_tail[OF Some 2(3)] None show ?thesis by auto
    qed simp
    then have "sub_gap ci pre post repl ((c # cs) @ w) = c # sub_gap ci pre post repl (cs @ w)"
      by (simp add: sub_gap.simps)
    with None 2(1)[OF None 2(3)] show ?thesis by (simp add: sub_gap.simps)
  next
    case (Some rest)
    from match_gap_append[OF Some] have "match_gap ci pre post ((c # cs) @ w) = Some (rest @ w)" .
    then have "sub_gap ci pre post repl ((c # cs) @ w) = repl @ sub_gap ci pre post repl (rest @ w)"
      by (simp add: sub_gap.simps)
    with Some 2(2)[OF Some 2(3)] show ?thesis by (simp add: sub_gap.simps)
  qed
qed

lemma sub_gap_outside:
  "outside ci pre post x \<Longrightarrow>
   sub_gap ci pre post repl (u @ x # v) = sub_gap ci pre post repl u @ x # sub_gap ci pre post repl v"
proof (induction ci pre post repl u rule: sub_gap.induct)
  case (1 ci pre post repl)
  have "match_gap ci pre post (x # v) = None"
  proof (cases "match_gap ci pre post (x # v)")
    case (Some rest)
    from match_gap_before_outside[of ci pre post "[]" x v rest] Some 1
    show ?thesis by (simp add: match_gap_Nil)
  qed simp
  then show ?case by (simp add: sub_gap.simps)
next
  case (2 ci pre post repl c cs)
  show ?case
  proof (cases "match_gap ci pre post (c # cs)")
    case None
    have "match_gap ci pre post ((c # cs) @ x # v) = None"
    proof (cases "match_gap ci pre post ((c # cs) @ x # v)")
      case (Some rest)
      from match_gap_before_outside[OF Some 2(3)] None show ?thesis by auto
    qed simp
    then have "sub_gap ci pre post repl ((c # cs) @ x # v) = c # sub_gap ci pre post repl (cs @ x # v)"
      by (simp add: sub_gap.simps)
    with None 2(1)[OF None 2(3)] show ?thesis by (simp add: sub_gap.simps)
  next
    case (Some rest)
    from match_gap_append[OF Some]
    have "match_gap ci pre post ((c # cs) @ x # v) = Some (rest @ x # v)" .
    then have "sub_gap ci pre post repl ((c # cs) @ x # v) = repl @ sub_gap ci pre post repl (rest @ x # v)"
      by (simp add: sub_gap.simps)
    with Some 2(2)[OF Some 2(3)] show ?thesis by (simp add: sub_gap.simps)
  qed
qed



lemma starts_pattern_last:
  "starts_pattern ci pre s \<Longrightarrow> pre \<noteq> [] \<Longrightarrow> eq_char ci (last pre) (last (take (length pre) s))"
proof (induction pre arbitrary: s)
  case Nil
  then show ?case by simp
next
  case (Cons p ps)
  then obtain c cs where s: "s = c # cs" by (cases s) (auto simp: starts_pattern_simps)
  with Cons.prems have e: "eq_char ci p c" and sp: "starts_pattern ci ps cs"
    by (simp_all add: starts_pattern_simps)
  show ?case
  proof (cases "ps = []")
    case True
    with e s show ?thesis by simp
  next
    case False
    from starts_pattern_length[OF sp] False have "cs \<noteq> []" by auto
    with Cons.IH[OF sp False] False s show ?thesis by simp
  qed
qed

lemma sub_gap_semicolon:
  assumes "pre \<noteq> []" "\<not> eq_char ci (hd pre) (CHR '';'')"
  shows "sub_gap ci pre post repl '';'' = '';''"
proof -
  from assms have "\<not> starts_pattern ci pre '';''"
    by (cases pre) (auto simp: starts_pattern_simps)
  then have "match_gap ci pre post '';'' = None"
    by (cases "match_gap ci pre post '';''") (auto simp: match_gap_alt)
  then show ?thesis by (simp add: sub_gap.simps)
qed

lemma sub_gap_keeps_close:
  "pre \<noteq> [] \<Longrightarrow> \<not> eq_char ci (hd pre) (CHR '';'') \<Longrightarrow>
   post = CHR '')'' \<longrightarrow> repl \<noteq> [] \<and> last repl = CHR '')'' \<Longrightarrow>
   post = CHR '';'' \<longrightarrow> \<not> eq_char ci (last pre) (CHR '')'') \<Longrightarrow>
   suffix '');'' s \<Longrightarrow> suffix '');'' (sub_gap ci pre post repl s)"
proof (induction ci pre post repl s rule: sub_gap.induct)
  case (1 ci pre post repl)
  then show ?case by simp
next
  case (2 ci pre post repl c cs)
  note semi = sub_gap_semicolon[OF 2(3,4), of post repl]
  show ?case
  proof (cases "match_gap ci pre post (c # cs)")
    case None
    then have eq: "sub_gap ci pre post repl (c # cs) = c # sub_gap ci pre post repl cs"
      by (simp add: sub_gap.simps)
    show ?thesis
    proof (cases "suffix '');'' cs")
      case True
      from 2(1)[OF None 2(3,4,5,6) True] show ?thesis unfolding eq by (simp add: suffix_Cons)
    next
      case False
      with 2(7) have "c # cs = '');''" by (auto simp: suffix_Cons)
      then show ?thesis unfolding eq using semi by simp
    qed
  next
    case (Some rest)
    then have eq: "sub_gap ci pre post repl (c # cs) = repl @ sub_gap ci pre post repl rest"
      by (simp add: sub_gap.simps)
    from Some have sp: "starts_pattern ci pre (c # cs)"
      and dw: "dropWhile is_space (drop (length pre) (c # cs)) = post # rest"
      by (simp_all add: match_gap_alt)
    define ws where "ws = takeWhile is_space (drop (length pre) (c # cs))"
    have spaces: "\<forall>x\<in>set ws. is_space x" unfolding ws_def by (auto dest: set_takeWhileD)
    have "drop (length pre) (c # cs) = ws @ post # rest"
      unfolding ws_def using dw by (metis takeWhile_dropWhile_id)
    then have s: "c # cs = (take (length pre) (c # cs) @ ws) @ post # rest"
      by (metis append_assoc append_take_drop_id)
    show ?thesis
    proof (cases "suffix '');'' rest")
      case True
      from 2(2)[OF Some 2(3,4,5,6) True] show ?thesis unfolding eq by (simp add: suffix_append)
    next
      case False
      from 2(7) s have "suffix '');'' ((take (length pre) (c # cs) @ ws) @ post # rest)" by simp
      then have "suffix '');'' (post # rest) \<or>
          (\<exists>xs'. '');'' = xs' @ post # rest \<and> suffix xs' (take (length pre) (c # cs) @ ws))"
        by (simp only: suffix_append)
      with False consider
        (a) "post = CHR '')''" "rest = '';''" |
        (b) "post = CHR '';''" "rest = []" "suffix '')'' (take (length pre) (c # cs) @ ws)"
        by (auto simp: suffix_Cons Cons_eq_append_conv)
      then show ?thesis
      proof cases
        case a
        with 2(5) obtain r' where "repl = r' @ '')''"
          by (metis append_butlast_last_id)
        with a show ?thesis unfolding eq using semi by (simp add: suffix_def)
      next
        case b
        have "\<not> is_space (CHR '')'')" by (simp add: is_space_def)
        with b(3) spaces have "ws = []"
          by (cases ws rule: rev_cases) (auto simp: suffix_def)
        with b(3) have "last (take (length pre) (c # cs)) = CHR '')''"
          by (auto simp: suffix_def)
        with starts_pattern_last[OF sp 2(3)] 2(6) b(1) show ?thesis by simp
      qed
    qed
  qed
qed


subsection \<open>\<^verbatim>\<open>fix_sql_schema\<close> on a synthesized text\<close>


lemma word_not_close: "is_word c \<Longrightarrow> c \<noteq> CHR '')'' \<and> c \<noteq> CHR '';'' \<and> c \<noteq> CHR '']''"
  by (auto simp: is_word_def)

lemma sub_gap_header:
  assumes "outside ci pre post (CHR ''E'')" "outside ci pre post (CHR '']'')"
    and "post = CHR '')'' \<or> post = CHR '';''" and "list_all is_word n"
  shows "sub_gap ci pre post repl (u @ table_header n @ v)
       = sub_gap ci pre post repl u @ table_header n @ sub_gap ci pre post repl v"
proof -
  let ?mid = "''ATE TABLE ['' @ n"
  have h: "table_header n = ''CR'' @ CHR ''E'' # ?mid @ CHR '']'' # []"
    by (simp add: table_header_def)
  have pn: "post \<notin> set n" using assms(3,4) word_not_close by (auto simp: list_all_iff)
  have p1: "post \<notin> set ''CR''" using assms(3) by auto
  have p2: "post \<notin> set ?mid" using assms(3) pn by auto
  have "sub_gap ci pre post repl ((u @ ''CR'') @ CHR ''E'' # (?mid @ CHR '']'' # v))
      = sub_gap ci pre post repl (u @ ''CR'') @ CHR ''E'' # sub_gap ci pre post repl (?mid @ CHR '']'' # v)"
    by (rule sub_gap_outside[OF assms(1)])
  also have "sub_gap ci pre post repl (u @ ''CR'') = sub_gap ci pre post repl u @ ''CR''"
    by (rule sub_gap_tail[OF p1])
  also have "sub_gap ci pre post repl (?mid @ CHR '']'' # v)
      = sub_gap ci pre post repl ?mid @ CHR '']'' # sub_gap ci pre post repl v"
    by (rule sub_gap_outside[OF assms(2)])
  also have "sub_gap ci pre post repl ?mid = ?mid" by (rule sub_gap_tail_id[OF p2])
  finally show ?thesis by (simp add: h)
qed

lemma outside_nvarchar:
  "outside True ''NVARCHAR('' (CHR '')'') (CHR ''E'')" "outside True ''NVARCHAR('' (CHR '')'') (CHR '']'')"
  by code_simp+

lemma outside_varchar:
  "outside True ''VARCHAR('' (CHR '')'') (CHR ''E'')" "outside True ''VARCHAR('' (CHR '')'') (CHR '']'')"
  by code_simp+

lemma outside_comma_paren:
  "outside False '','' (CHR '')'') (CHR ''E'')" "outside False '','' (CHR '')'') (CHR '']'')"
  by code_simp+

lemma outside_comma_semi:
  "outside False '','' (CHR '';'') (CHR ''E'')" "outside False '','' (CHR '';'') (CHR '']'')"
  by code_simp+

lemma fix_sql_schema_header:
  assumes "list_all is_word n"
  shows "fix_sql_schema (u @ table_header n @ v) = fix_sql_schema u @ table_header n @ fix_sql_schema v"
  unfolding fix_sql_schema_def
  by (simp only: sub_gap_header[OF outside_nvarchar _ assms] sub_gap_header[OF outside_varchar _ assms]
      sub_gap_header[OF outside_comma_paren _ assms] sub_gap_header[OF outside_comma_semi _ assms]
      simp_thms)

lemma fix_sql_schema_tail:
  assumes "CHR '')'' \<notin> set w" "CHR '';'' \<notin> set w"
  shows "fix_sql_schema (u @ w) = fix_sql_schema u @ w"
  unfolding fix_sql_schema_def
  by (simp only: sub_gap_tail[OF assms(1)] sub_gap_tail[OF assms(2)])

lemma fix_sql_schema_keeps_close:
  assumes "suffix '');'' s"
  shows "suffix '');'' (fix_sql_schema s)"
proof -
  have 1: "suffix '');'' (sub_gap True ''NVARCHAR('' (CHR '')'') ''NVARCHAR(255)'' s)"
    by (rule sub_gap_keeps_close[OF _ _ _ _ assms]) code_simp+
  have 2: "suffix '');'' (sub_gap True ''VARCHAR('' (CHR '')'') ''VARCHAR(255)''
             (sub_gap True ''NVARCHAR('' (CHR '')'') ''NVARCHAR(255)'' s))"
    by (rule sub_gap_keeps_close[OF _ _ _ _ 1]) code_simp+
  have 3: "suffix '');'' (sub_gap False '','' (CHR '')'') '')''
             (sub_gap True ''VARCHAR('' (CHR '')'') ''VARCHAR(255)''
               (sub_gap True ''NVARCHAR('' (CHR '')'') ''NVARCHAR(255)'' s)))"
    by (rule sub_gap_keeps_close[OF _ _ _ _ 2]) code_simp+
  show ?thesis unfolding fix_sql_schema_def
    by (rule sub_gap_keeps_close[OF _ _ _ _ 3]) code_simp+
qed


subsection \<open>Splitting a text of table blocks\<close>


lemma starts_with_ci_chars:
  "starts_with_ci p s \<Longrightarrow> \<forall>c\<in>set (take (length p) s). \<exists>x\<in>set p. lower_ascii x = lower_ascii c"
  by (induction p s rule: starts_with_ci.induct) auto

lemma not_space_paren: "\<not> is_space (CHR '')'')"
  by (simp add: is_space_def)

lemma keyword_no_paren:
  "list_all (\<lambda>x. lower_ascii x \<noteq> lower_ascii (CHR '')'')) ''CREATE TABLE''"
  by code_simp

lemma optional_char_cases:
  "\<exists>b. s = b @ optional_char c s \<and> (b = [] \<or> b = [c])"
  by (cases s) (auto simp: optional_char_def)

lemma table_head_Some:
  assumes "table_head s = Some (name, rest)"
  shows "\<exists>h. s = h @ rest \<and> CHR '')'' \<notin> set h"
proof -
  define ak where "ak = drop 12 s"
  define sp where "sp = dropWhile is_space ak"
  define ab where "ab = optional_char (CHR ''['') sp"
  define an where "an = dropWhile is_word ab"
  from assms have kw: "starts_with_ci ''CREATE TABLE'' s"
    and rest: "rest = optional_char (CHR '']'') an"
    by (simp_all add: table_head_def Let_def ak_def sp_def ab_def an_def split: if_splits)
  define k where "k = take 12 s"
  define w where "w = takeWhile is_space ak"
  define nm where "nm = takeWhile is_word ab"
  have 1: "s = k @ ak" by (simp add: ak_def k_def)
  have 2: "ak = w @ sp" by (simp add: sp_def w_def)
  from optional_char_cases[where c = "CHR ''[''" and s = sp] obtain b where
    3: "sp = b @ ab" and b: "b = [] \<or> b = ''[''" unfolding ab_def by blast
  have 4: "ab = nm @ an" by (simp add: an_def nm_def)
  from optional_char_cases[where c = "CHR '']''" and s = an] obtain e where
    5: "an = e @ rest" and e: "e = [] \<or> e = '']''" unfolding rest by blast
  have "\<forall>c\<in>set (take (length ''CREATE TABLE'') s). \<exists>x\<in>set ''CREATE TABLE''. lower_ascii x = lower_ascii c"
    by (rule starts_with_ci_chars[OF kw])
  moreover have "length ''CREATE TABLE'' = (12::nat)" by simp
  ultimately have kc: "\<forall>c\<in>set k. \<exists>x\<in>set ''CREATE TABLE''. lower_ascii x = lower_ascii c"
    unfolding k_def by (simp only:)
  have kn: "\<forall>x\<in>set ''CREATE TABLE''. lower_ascii x \<noteq> lower_ascii (CHR '')'')"
    using keyword_no_paren unfolding list_all_iff .
  have pk: "CHR '')'' \<notin> set k" using kc kn by blast
  have pw: "CHR '')'' \<notin> set w"
    unfolding w_def using not_space_paren by (blast dest: set_takeWhileD)
  have pn: "CHR '')'' \<notin> set nm"
    unfolding nm_def using word_not_close by (blast dest: set_takeWhileD)
  have pb: "CHR '')'' \<notin> set b" using b by auto
  have pe: "CHR '')'' \<notin> set e" using e by auto
  have "s = (k @ w @ b @ nm @ e) @ rest"
    by (simp only: 1 2 3 4 5 append_assoc)
  moreover have "CHR '')'' \<notin> set (k @ w @ b @ nm @ e)" using pk pw pb pn pe by simp
  ultimately show ?thesis by blast
qed



lemma starts_with_ci_self: "starts_with_ci p (p @ t)"
  by (induction p) auto

lemma lower_C: "lower_ascii (CHR ''C'') = CHR ''c''"
  by code_simp

lemma space_facts: "is_space (CHR '' '')" "\<not> is_space (CHR ''['')"
  by (simp_all add: is_space_def)

lemma not_word_bracket: "\<not> is_word (CHR '']'')"
  by (simp add: is_word_def)

lemma table_head_header:
  assumes "is_identifier n"
  shows "table_head (table_header n @ v) = Some (n, v)"
proof -
  from assms have ne: "n \<noteq> []" and w: "\<forall>c\<in>set n. is_word c"
    by (simp_all add: is_identifier_def list_all_iff)
  have s: "table_header n @ v = ''CREATE TABLE'' @ ('' ['' @ n @ '']'' @ v)"
    by (simp add: table_header_def)
  have kw: "starts_with_ci ''CREATE TABLE'' (table_header n @ v)"
    unfolding s by (rule starts_with_ci_self)
  have d: "drop 12 (table_header n @ v) = '' ['' @ n @ '']'' @ v" by (simp add: table_header_def)
  have sp: "dropWhile is_space ('' ['' @ n @ '']'' @ v) = ''['' @ n @ '']'' @ v"
    by (simp add: space_facts)
  have ob: "optional_char (CHR ''['') (''['' @ n @ '']'' @ v) = n @ '']'' @ v"
    by (simp add: optional_char_def)
  have tw: "takeWhile is_word (n @ '']'' @ v) = n"
    using w by (simp add: takeWhile_append2 not_word_bracket)
  have dw: "dropWhile is_word (n @ '']'' @ v) = '']'' @ v"
    using w by (simp add: dropWhile_append2 not_word_bracket)
  have oc: "optional_char (CHR '']'') ('']'' @ v) = v" by (simp add: optional_char_def)
  show ?thesis
    unfolding table_head_def Let_def d sp ob tw dw oc using kw ne by simp
qed

lemma table_head_no_head:
  assumes "no_head z" "z \<noteq> []"
  shows "table_head (z @ v) = None"
proof -
  from assms obtain c t where z: "z = c # t" and c: "lower_ascii c \<noteq> CHR ''c''"
    by (cases z) (auto simp: no_head_def)
  then have "\<not> starts_with_ci ''CREATE TABLE'' (z @ v)" by (simp add: lower_C)
  then show ?thesis by (simp add: table_head_def)
qed

lemma find_close_split:
  "\<exists>before r. find_close (a @ '');'' @ b) = Some (before, r) \<and>
     (r = b \<or> (\<exists>a'. r = a' @ '');'' @ b \<and> length a' < length a))"
proof (induction a rule: find_close.induct)
  case (1 x y cs)
  show ?case
  proof (cases "x = CHR '')'' \<and> y = CHR '';''")
    case True
    then show ?thesis by auto
  next
    case False
    from 1[OF False] obtain before r where
      f: "find_close ((y # cs) @ '');'' @ b) = Some (before, r)" and
      r: "r = b \<or> (\<exists>a'. r = a' @ '');'' @ b \<and> length a' < length (y # cs))" by blast
    from f False have "find_close ((x # y # cs) @ '');'' @ b) = Some (x # before, r)" by auto
    with r show ?thesis by auto
  qed
qed simp_all

lemma no_head_semicolon: "no_head y \<Longrightarrow> no_head (CHR '';'' # y)"
  by (simp add: no_head_def lower_ascii_def)

lemma closed_tail_tl: "closed_tail (c # z) \<Longrightarrow> closed_tail z"
proof (cases "no_head (c # z)")
  case True
  then show ?thesis by (simp add: closed_tail_def no_head_def)
next
  case False
  assume "closed_tail (c # z)"
  with False obtain z' y where e: "c # z = z' @ '');'' @ y" and y: "no_head y"
    by (auto simp: closed_tail_def closed_body_def)
  show ?thesis
  proof (cases z')
    case Nil
    with e have "z = CHR '';'' # y" by simp
    with y show ?thesis by (simp add: closed_tail_def no_head_semicolon)
  next
    case (Cons d z'')
    with e have "z = z'' @ '');'' @ y" by simp
    with y show ?thesis by (auto simp: closed_tail_def closed_body_def)
  qed
qed

lemma match_table_closed:
  assumes "closed_body z" and "match_table (z @ v) = Some (block, rest)"
  shows "\<exists>zr. rest = zr @ v \<and> closed_tail zr \<and> length zr < length z"
proof -
  from assms(1) obtain z' y where z: "z = z' @ '');'' @ y" and y: "no_head y"
    by (auto simp: closed_body_def)
  from assms(2) obtain name ah before where
    th: "table_head (z @ v) = Some (name, ah)" and fc: "find_close ah = Some (before, rest)"
    by (auto simp: match_table_def split: option.splits prod.splits)
  from table_head_Some[OF th] obtain h where h: "z @ v = h @ ah" "CHR '')'' \<notin> set h" by blast
  have "\<exists>r'. z' = h @ r'"
  proof -
    from h(1) z have eq: "z' @ (CHR '')'' # CHR '';'' # y @ v) = h @ ah" by simp
    then consider (a) us where "z' = h @ us" | (b) us where "us \<noteq> []" "z' @ us = h"
      by (auto simp: append_eq_append_conv2)
        (metis append_Nil2)
    then show ?thesis
    proof cases
      case a
      then show ?thesis by blast
    next
      case b
      with eq have "us @ ah = CHR '')'' # CHR '';'' # y @ v" by auto
      with b(1) have "hd us = CHR '')''" by (cases us) auto
      with b have "CHR '')'' \<in> set h" by (cases us) auto
      with h(2) show ?thesis by simp
    qed
  qed
  then obtain r' where r': "z' = h @ r'" by blast
  with h(1) z have ah: "ah = r' @ '');'' @ (y @ v)" by simp
  from find_close_split[of r' "y @ v"] fc ah
  have "rest = y @ v \<or> (\<exists>a'. rest = a' @ '');'' @ (y @ v) \<and> length a' < length r')" by auto
  then show ?thesis
  proof
    assume "rest = y @ v"
    with y z show ?thesis by (auto simp: closed_tail_def intro!: exI[of _ y])
  next
    assume "\<exists>a'. rest = a' @ '');'' @ (y @ v) \<and> length a' < length r'"
    then obtain a' where a: "rest = a' @ '');'' @ (y @ v)" "length a' < length r'" by blast
    have "closed_tail (a' @ '');'' @ y)" using y by (auto simp: closed_tail_def closed_body_def)
    with a z r' show ?thesis by (intro exI[of _ "a' @ '');'' @ y"]) simp
  qed
qed

lemma split_skips_closed_tail:
  "closed_tail z \<Longrightarrow> \<exists>bs. split_schema_to_tables (z @ v) = bs @ split_schema_to_tables v"
proof (induction z rule: length_induct)
  case (1 z)
  show ?case
  proof (cases z)
    case Nil
    then show ?thesis by simp
  next
    case (Cons c z1)
    show ?thesis
    proof (cases "match_table (z @ v)")
      case None
      from 1(2) Cons have "closed_tail z1" by (auto dest: closed_tail_tl)
      with 1(1) Cons obtain bs where "split_schema_to_tables (z1 @ v) = bs @ split_schema_to_tables v"
        by auto
      with None Cons show ?thesis by (simp add: split_schema_to_tables.simps)
    next
      case (Some m)
      obtain block rest where m: "m = (block, rest)" by (cases m)
      have cb: "closed_body z"
      proof (rule ccontr)
        assume "\<not> closed_body z"
        with 1(2) have "no_head z" by (simp add: closed_tail_def)
        with Cons have "table_head (z @ v) = None" by (intro table_head_no_head) simp_all
        with Some show False by (simp add: match_table_def)
      qed
      from Some m have "match_table (z @ v) = Some (block, rest)" by simp
      from match_table_closed[OF cb this] obtain zr where
        zr: "rest = zr @ v" "closed_tail zr" "length zr < length z" by blast
      with 1(1) obtain bs where "split_schema_to_tables (zr @ v) = bs @ split_schema_to_tables v"
        by auto
      with Some m zr(1) Cons show ?thesis by (simp add: split_schema_to_tables.simps)
    qed
  qed
qed



lemma split_header:
  assumes "is_identifier n" "closed_body z"
  shows "\<exists>block bs. split_schema_to_tables (table_header n @ z @ v)
                     = block # bs @ split_schema_to_tables v \<and> extract_table_name block = n"
proof -
  let ?s = "table_header n @ z @ v"
  from assms(2) obtain z' y where z: "z = z' @ '');'' @ y" and y: "no_head y"
    by (auto simp: closed_body_def)
  have th: "table_head ?s = Some (n, z @ v)" by (rule table_head_header[OF assms(1)])
  from find_close_split[of z' "y @ v"] obtain before r where
    fc: "find_close (z' @ '');'' @ (y @ v)) = Some (before, r)" and
    r: "r = y @ v \<or> (\<exists>a'. r = a' @ '');'' @ (y @ v) \<and> length a' < length z')" by blast
  from r obtain zr where zr: "r = zr @ v" "closed_tail zr" "length zr \<le> length z"
  proof
    assume "r = y @ v"
    with y z show ?thesis by (intro that[of y]) (simp_all add: closed_tail_def)
  next
    assume "\<exists>a'. r = a' @ '');'' @ (y @ v) \<and> length a' < length z'"
    then obtain a' where a: "r = a' @ '');'' @ (y @ v)" "length a' < length z'" by blast
    have "closed_tail (a' @ '');'' @ y)" using y by (auto simp: closed_tail_def closed_body_def)
    with a z show ?thesis by (intro that[of "a' @ '');'' @ y"]) simp_all
  qed
  define q where "q = take (length z - length zr) z"
  have blk: "take (length ?s - length r) ?s = table_header n @ q"
    using zr(1,3) by (simp add: q_def)
  have m: "match_table ?s = Some (table_header n @ q, r)"
    using th fc z blk by (simp add: match_table_def)
  obtain c cs where s: "?s = c # cs" by (cases ?s) (simp_all add: table_header_def)
  from split_skips_closed_tail[OF zr(2), of v] obtain bs where
    bs: "split_schema_to_tables (zr @ v) = bs @ split_schema_to_tables v" by blast
  have "split_schema_to_tables ?s = (table_header n @ q) # split_schema_to_tables r"
    using m unfolding s by (simp add: split_schema_to_tables.simps)
  moreover have "extract_table_name (table_header n @ q) = n"
    by (simp add: extract_table_name_def table_head_header[OF assms(1)])
  ultimately show ?thesis using bs zr(1) by auto
qed

lemma render_Cons: "render ((n, g) # segs) = table_header n @ g @ render segs"
  by (simp add: render_def)

lemma render_snoc: "render (segs @ [(n, g)]) = render segs @ table_header n @ g"
  by (simp add: render_def)

lemma recovered_names_render:
  "list_all (\<lambda>seg. is_identifier (fst seg) \<and> closed_body (snd seg)) segs \<Longrightarrow>
   fst ` set segs \<subseteq> set (recovered_names (render segs))"
proof (induction segs)
  case Nil
  then show ?case by simp
next
  case (Cons seg segs)
  obtain n g where seg: "seg = (n, g)" by (cases seg)
  with Cons.prems have n: "is_identifier n" and g: "closed_body g" by simp_all
  from split_header[OF n g, of "render segs"] obtain block bs where
    "split_schema_to_tables (table_header n @ g @ render segs)
       = block # bs @ split_schema_to_tables (render segs)" "extract_table_name block = n" by blast
  then have "set (recovered_names (render (seg # segs)))
      = insert n (set (map extract_table_name bs) \<union> set (recovered_names (render segs)))"
    by (simp add: recovered_names_def seg render_Cons)
  with Cons show ?case by (auto simp: seg)
qed

lemma fix_sql_schema_render:
  "list_all (\<lambda>seg. list_all is_word (fst seg)) segs \<Longrightarrow>
   fix_sql_schema (g @ render segs)
     = fix_sql_schema g @ render (map (\<lambda>seg. (fst seg, fix_sql_schema (snd seg))) segs)"
proof (induction segs arbitrary: g)
  case Nil
  then show ?case by (simp add: render_def)
next
  case (Cons seg segs)
  obtain n g1 where seg: "seg = (n, g1)" by (cases seg)
  with Cons.prems have n: "list_all is_word n" by simp
  have "fix_sql_schema (g @ table_header n @ (g1 @ render segs))
      = fix_sql_schema g @ table_header n @ fix_sql_schema (g1 @ render segs)"
    by (rule fix_sql_schema_header[OF n])
  with Cons.IH[of g1] Cons.prems show ?case by (simp add: seg render_Cons)
qed

lemma fix_sql_schema_Nil: "fix_sql_schema [] = []"
  by (simp add: fix_sql_schema_def sub_gap.simps)

lemma block_end_fix:
  assumes "block_end g"
  shows "closed_body (fix_sql_schema g)"
proof -
  from assms obtain g0 y where g: "g = g0 @ '');'' @ y" and y: "CHR '')'' \<notin> set y" "CHR '';'' \<notin> set y" "no_head y"
    by (auto simp: block_end_def)
  have "fix_sql_schema ((g0 @ '');'') @ y) = fix_sql_schema (g0 @ '');'') @ y"
    by (rule fix_sql_schema_tail[OF y(1,2)])
  moreover have "suffix '');'' (fix_sql_schema (g0 @ '');''))"
    by (rule fix_sql_schema_keeps_close) (simp add: suffix_def)
  then obtain q where "fix_sql_schema (g0 @ '');'') = q @ '');''" by (auto simp: suffix_def)
  ultimately have "fix_sql_schema g = q @ '');'' @ y" by (simp add: g)
  with y(3) show ?thesis by (auto simp: closed_body_def)
qed


subsection \<open>The shape of the synthesized text and the round trip\<close>


lemma rstrip_sep_append_stop:
  assumes "a \<noteq> []" "last a \<noteq> CHR '',''" "last a \<noteq> CHR 0x0A"
  shows "rstrip_sep (a @ b) = a @ rstrip_sep b"
proof -
  let ?P = "\<lambda>c. c = CHR '','' \<or> c = CHR 0x0A"
  have "dropWhile ?P (rev b @ rev a) = dropWhile ?P (rev b) @ rev a"
    using assms by (intro dropWhile_append_stop) (simp_all add: hd_rev)
  then show ?thesis by (simp add: rstrip_sep_def)
qed

lemma rstrip_sep_open:
  "\<exists>body'. rstrip_sep (render segs @ table_header n @ body) = render segs @ table_header n @ body'"
proof -
  have "rstrip_sep ((render segs @ table_header n) @ body) = (render segs @ table_header n) @ rstrip_sep body"
    by (rule rstrip_sep_append_stop) (simp_all add: table_header_def)
  then show ?thesis by simp
qed

lemma no_head_newlines: "no_head ''\<newline>\<newline>''" "no_head []"
  by (simp_all add: no_head_def lower_ascii_def)

lemma block_end_closed: "block_end (body @ ''\<newline>);\<newline>\<newline>'')"
proof -
  have "body @ ''\<newline>);\<newline>\<newline>'' = (body @ ''\<newline>'') @ '');'' @ ''\<newline>\<newline>''" by simp
  then show ?thesis unfolding block_end_def using no_head_newlines(1)
    by (intro exI[of _ "body @ ''\<newline>''"] exI[of _ "''\<newline>\<newline>''"]) simp
qed

lemma block_end_last: "block_end (body @ ''\<newline>);'')"
proof -
  have "body @ ''\<newline>);'' = (body @ ''\<newline>'') @ '');'' @ []" by simp
  then show ?thesis unfolding block_end_def using no_head_newlines(2)
    by (intro exI[of _ "body @ ''\<newline>''"] exI[of _ "[]"]) simp
qed

lemma synth_step_shape:
  assumes "open_shape names st"
  shows "open_shape (names \<union> set (case table_name row of None \<Rightarrow> [] | Some n \<Rightarrow> [n])) (synth_step row st)"
proof (cases "table_name row")
  case None
  with assms show ?thesis by (simp add: synth_step_def)
next
  case (Some name)
  obtain schema_text current_table where st: "st = (schema_text, current_table)" by (cases st)
  show ?thesis
  proof (cases current_table)
    case None
    with assms st have e: "schema_text = []" "names = {}" by (auto simp: open_shape_def)
    have "synth_step row st = (render [] @ table_header name @ ('' (\<newline>'' @ column_line row), Some name)"
      by (simp add: synth_step_def Some st None e render_def table_header_def)
    then show ?thesis unfolding open_shape_def using Some e
      by (intro disjI2 exI[of _ "[]"] exI[of _ name] exI[of _ "'' (\<newline>'' @ column_line row"]) simp
  next
    case cur: (Some n)
    with assms st obtain segs body where
      t: "schema_text = render segs @ table_header n @ body" and
      nm: "names = insert n (fst ` set segs)" and
      be: "list_all (\<lambda>seg. block_end (snd seg)) segs"
      by (auto simp: open_shape_def)
    show ?thesis
    proof (cases "name = n")
      case True
      have "synth_step row st = (render segs @ table_header n @ (body @ column_line row), Some n)"
        by (simp add: synth_step_def Some st cur t True)
      then show ?thesis unfolding open_shape_def using Some True nm be
        by (intro disjI2 exI[of _ segs] exI[of _ n] exI[of _ "body @ column_line row"]) auto
    next
      case False
      from rstrip_sep_open[of segs n body] obtain body' where
        r: "rstrip_sep schema_text = render segs @ table_header n @ body'" unfolding t by blast
      let ?segs = "segs @ [(n, body' @ ''\<newline>);\<newline>\<newline>'')]"
      have "synth_step row st = (render ?segs @ table_header name @ ('' (\<newline>'' @ column_line row), Some name)"
        using False by (simp add: synth_step_def Some st cur r render_snoc table_header_def)
      moreover have "list_all (\<lambda>seg. block_end (snd seg)) ?segs"
        using be block_end_closed by simp
      moreover have "names \<union> set [name] = insert name (fst ` set ?segs)" using nm by auto
      ultimately show ?thesis unfolding open_shape_def using Some
        by (intro disjI2 exI[of _ ?segs] exI[of _ name] exI[of _ "'' (\<newline>'' @ column_line row"]) simp
    qed
  qed
qed

lemma synth_loop_shape:
  "open_shape names st \<Longrightarrow> open_shape (names \<union> set (row_table_names rows)) (synth_loop rows st)"
proof (induction rows arbitrary: names st)
  case Nil
  then show ?case by (simp add: row_table_names_def)
next
  case (Cons row rows)
  from Cons.IH[OF synth_step_shape[OF Cons.prems, of row]]
  show ?case by (simp add: row_table_names_def Un_assoc)
qed

lemma close_last_shape:
  assumes "open_shape names st"
  shows "\<exists>segs. close_last st = render segs \<and> names = fst ` set segs \<and>
           list_all (\<lambda>seg. block_end (snd seg)) segs"
proof (cases "snd st")
  case None
  with assms have "fst st = []" "names = {}" by (auto simp: open_shape_def)
  with None show ?thesis by (intro exI[of _ "[]"]) (simp add: close_last_def render_def)
next
  case (Some n)
  with assms obtain segs body where
    t: "fst st = render segs @ table_header n @ body" and
    nm: "names = insert n (fst ` set segs)" and
    be: "list_all (\<lambda>seg. block_end (snd seg)) segs"
    by (auto simp: open_shape_def)
  from rstrip_sep_open[of segs n body] obtain body' where
    r: "rstrip_sep (fst st) = render segs @ table_header n @ body'" unfolding t by blast
  let ?segs = "segs @ [(n, body' @ ''\<newline>);'')]"
  have "close_last st = render ?segs" by (simp add: close_last_def Some r render_snoc)
  moreover have "list_all (\<lambda>seg. block_end (snd seg)) ?segs" using be block_end_last by simp
  moreover have "names = fst ` set ?segs" using nm by auto
  ultimately show ?thesis by blast
qed

text \<open>
  The claim as it was stated fails on a table name that is not a single word: the parser
  reads the name with \<^verbatim>\<open>\w+\<close> and recovers \<open>Order\<close> from the block of the table
  \<open>Order Details\<close>.
\<close>

theorem recovered_names_order_details:
  "order_details_rows \<noteq> [] \<and> row_table_names order_details_rows = [''Order Details''] \<and>
   synthesize_ddl order_details_rows = ''CREATE TABLE [Order Details] (\<newline>  [OrderID] int NOT NULL\<newline>);'' \<and>
   recovered_names (synthesize_ddl order_details_rows) = [''Order''] \<and>
   ''Order Details'' \<notin> set (recovered_names (synthesize_ddl order_details_rows))"
  by code_simp

text \<open>
  Claim C1, as the code has it. When every table name carried by the catalog rows is an
  identifier, a non-empty run of word characters, the DDL text synthesized from the rows,
  parsed again by \<open>split_schema_to_tables\<close> and \<open>extract_table_name\<close>, gives back every
  table name of the rows, whatever the other fields of the rows hold.
\<close>

theorem synthesize_ddl_round_trip:
  assumes "list_all is_identifier (row_table_names schema_data)"
  shows "set (row_table_names schema_data) \<subseteq> set (recovered_names (synthesize_ddl schema_data))"
proof -
  have "open_shape {} ([], None)" by (simp add: open_shape_def)
  from synth_loop_shape[OF this, of schema_data]
  have "open_shape (set (row_table_names schema_data)) (synth_loop schema_data ([], None))" by simp
  from close_last_shape[OF this] obtain segs where
    c: "close_last (synth_loop schema_data ([], None)) = render segs" and
    nm: "set (row_table_names schema_data) = fst ` set segs" and
    be: "list_all (\<lambda>seg. block_end (snd seg)) segs" by blast
  from assms nm have ids: "\<forall>seg\<in>set segs. is_identifier (fst seg)"
    by (auto simp: list_all_iff)
  then have w: "list_all (\<lambda>seg. list_all is_word (fst seg)) segs"
    by (simp add: list_all_iff is_identifier_def)
  let ?segs = "map (\<lambda>seg. (fst seg, fix_sql_schema (snd seg))) segs"
  have "synthesize_ddl schema_data = fix_sql_schema ([] @ render segs)"
    by (simp add: synthesize_ddl_def c)
  also have "\<dots> = render ?segs"
    using fix_sql_schema_render[OF w, of "[]"] by (simp add: fix_sql_schema_Nil)
  finally have s: "synthesize_ddl schema_data = render ?segs" .
  have "list_all (\<lambda>seg. is_identifier (fst seg) \<and> closed_body (snd seg)) ?segs"
    using ids be by (auto simp: list_all_iff intro: block_end_fix)
  from recovered_names_render[OF this] have "fst ` set ?segs \<subseteq> set (recovered_names (render ?segs))" .
  moreover have "fst ` set ?segs = fst ` set segs" by force
  ultimately show ?thesis using nm s by simp
qed

theorem synthesize_ddl_round_trip_witness:
  "list_all is_identifier (row_table_names employees_rows) \<and>
   row_table_names employees_rows = [''Departments'', ''Employees'', ''Employees'', ''Employees''] \<and>
   {''Departments'', ''Employees''} \<subseteq> set (recovered_names (synthesize_ddl employees_rows))"
proof -
  have h: "list_all is_identifier (row_table_names employees_rows)" by code_simp
  have n: "row_table_names employees_rows = [''Departments'', ''Employees'', ''Employees'', ''Employees'']"
    by code_simp
  from synthesize_ddl_round_trip[OF h] h n show ?thesis by simp
qed


end
